theory Spec2Isabelle
  imports Main "HOL-Library.Word"
begin

unbundle bit_operations_syntax

section \<open>Data model (common.hpp, board.hpp)\<close>

datatype Side = WHITE | BLACK

datatype Position = CORNER | EDGE | NEXT_TO_CORNER | DIAGONAL_TO_CORNER | OTHER

text \<open>A \<^verbatim>\<open>Move\<close> is a pair of C ints \<open>(x, y)\<close>; a \<^verbatim>\<open>Move*\<close> is a
  \<open>move option\<close>, with \<open>None\<close> for \<^verbatim>\<open>nullptr\<close> (a pass).\<close>

type_synonym move = "int \<times> int"

text \<open>Modelled from the spec: \<^verbatim>\<open>board.hpp\<close>, which declares the members of
  \<^verbatim>\<open>Board\<close>, is not among the sources. The spec gives the state as two bit-sets
  over the 64 squares, and \<^verbatim>\<open>board.cpp\<close> uses its members \<^verbatim>\<open>taken\<close> and
  \<^verbatim>\<open>black\<close> with the operations of \<^verbatim>\<open>std::bitset\<close> (\<^verbatim>\<open>set\<close>,
  \<^verbatim>\<open>reset\<close>, \<^verbatim>\<open>count\<close>, indexing) on the positions \<open>0 .. 63\<close>: two values of
  \<^verbatim>\<open>bitset<64>\<close>, held in the object itself.\<close>

record Board =
  taken :: "64 word"
  black :: "64 word"

datatype error = OutOfRange | BadPointer

subsection \<open>The bitset operations used by the board\<close>

text \<open>Bit positions are C ints; the bitset has the positions \<open>0 .. 63\<close>.\<close>

definition inRange :: "int \<Rightarrow> bool" where
  "inRange i = (0 \<le> i \<and> i < 64)"

text \<open>\<^verbatim>\<open>bs[i]\<close>. Reading a position outside \<open>0 .. 63\<close> is undefined in C++; here it
  reads \<open>False\<close>. \<open>checkMove\<close> and \<open>doMove\<close> below report an error before
  such a read can happen.\<close>

definition bs_test :: "64 word \<Rightarrow> int \<Rightarrow> bool" where
  "bs_test w i = (inRange i \<and> bit w (nat i))"

text \<open>\<^verbatim>\<open>bs.set(i, v)\<close>. Outside \<open>0 .. 63\<close> the C++ call throws before changing
  anything; the model leaves the bitset unchanged there.\<close>

definition bs_set :: "64 word \<Rightarrow> int \<Rightarrow> bool \<Rightarrow> 64 word" where
  "bs_set w i v = (if inRange i then (if v then set_bit (nat i) w else unset_bit (nat i) w) else w)"

text \<open>\<^verbatim>\<open>bs.count()\<close>: the number of set bits.\<close>

definition bs_count :: "64 word \<Rightarrow> nat" where
  "bs_count w = length (filter (bit w) [0..<64])"

text \<open>The set of the positions whose bit is set, for reasoning about counts.\<close>

definition bits :: "64 word \<Rightarrow> nat set" where
  "bits w = {n. bit w n}"

section \<open>Board (board.cpp)\<close>

text \<open>\<^verbatim>\<open>Board::Board()\<close>: the standard opening.\<close>

definition newBoard :: Board where
  "newBoard =
     \<lparr> taken = bs_set (bs_set (bs_set (bs_set 0 (3 + 8 * 3) True) (3 + 8 * 4) True) (4 + 8 * 3) True) (4 + 8 * 4) True,
       black = bs_set (bs_set 0 (4 + 8 * 3) True) (3 + 8 * 4) True \<rparr>"

text \<open>\<^verbatim>\<open>Board::copy()\<close> on board values: a new board with both bitsets assigned.\<close>

definition copy :: "Board \<Rightarrow> Board" where
  "copy b = newBoard \<lparr> black := black b, taken := taken b \<rparr>"

definition occupied :: "Board \<Rightarrow> int \<Rightarrow> int \<Rightarrow> bool" where
  "occupied b x y = bs_test (taken b) (x + 8 * y)"

definition get :: "Board \<Rightarrow> Side \<Rightarrow> int \<Rightarrow> int \<Rightarrow> bool" where
  "get b side x y = (occupied b x y \<and> (bs_test (black b) (x + 8 * y) = (side = BLACK)))"

definition set_sq :: "Board \<Rightarrow> Side \<Rightarrow> int \<Rightarrow> int \<Rightarrow> Board" where
  "set_sq b side x y =
     b \<lparr> taken := bs_set (taken b) (x + 8 * y) True,
         black := bs_set (black b) (x + 8 * y) (side = BLACK) \<rparr>"

definition onBoard :: "int \<Rightarrow> int \<Rightarrow> bool" where
  "onBoard x y = (0 \<le> x \<and> x < 8 \<and> 0 \<le> y \<and> y < 8)"

text \<open>The squares in the order of the nested loops \<^verbatim>\<open>for i ... for j ... Move(i, j)\<close>
  used by \<^verbatim>\<open>hasMoves\<close>, \<^verbatim>\<open>getScore\<close> and \<^verbatim>\<open>negamax\<close>: \<open>i\<close> (the x
  coordinate) in the outer loop, \<open>j\<close> (the y coordinate) in the inner loop.\<close>

definition squares :: "move list" where
  "squares = concat (map (\<lambda>i. map (\<lambda>j. (i, j)) [0..7]) [0..7])"

text \<open>\<^verbatim>\<open>(side == BLACK) ? WHITE : BLACK\<close>.\<close>

definition opposite :: "Side \<Rightarrow> Side" where
  "opposite side = (if side = BLACK then WHITE else BLACK)"

subsection \<open>Legality of a placement\<close>

text \<open>The scan \<^verbatim>\<open>do { x += dx; y += dy; } while (onBoard(x, y) && get(other, x, y))\<close>,
  entered at the square \<open>(x, y)\<close> reached by the first step of the body; it returns
  the square at which the loop stops. The source runs it for the eight directions
  with \<open>(dx, dy) \<noteq> (0, 0)\<close> only (\<^verbatim>\<open>continue\<close>), and the guard on the
  direction keeps the model total.\<close>

function run_end :: "Board \<Rightarrow> Side \<Rightarrow> int \<Rightarrow> int \<Rightarrow> int \<Rightarrow> int \<Rightarrow> int \<times> int" where
  "run_end b other dx dy x y =
     (if onBoard x y \<and> get b other x y \<and> (dx \<noteq> 0 \<or> dy \<noteq> 0)
      then run_end b other dx dy (x + dx) (y + dy) else (x, y))"
  by pat_completeness auto
termination
  by (relation "measure (\<lambda>(b, other, dx, dy, x, y).
        if dx > 0 then nat (8 - x) else if dx < 0 then nat (x + 1)
        else if dy > 0 then nat (8 - y) else nat (y + 1))")
     (auto simp: onBoard_def)

text \<open>One direction of \<^verbatim>\<open>checkMove\<close>: is there a capture in direction \<open>(dx, dy)\<close>?\<close>

definition captures :: "Board \<Rightarrow> Side \<Rightarrow> int \<Rightarrow> int \<Rightarrow> int \<Rightarrow> int \<Rightarrow> bool" where
  "captures b side X Y dx dy =
     (let other = opposite side; x = X + dx; y = Y + dy in
      if onBoard x y \<and> get b other x y then
        (case run_end b other dx dy (x + dx) (y + dy) of
           (x', y') \<Rightarrow> onBoard x' y' \<and> get b side x' y')
      else False)"

text \<open>The eight directions in the order of the loops over \<open>dx\<close> and \<open>dy\<close>.\<close>

definition directions :: "(int \<times> int) list" where
  "directions = [(-1, -1), (-1, 0), (-1, 1), (0, -1), (0, 1), (1, -1), (1, 0), (1, 1)]"

text \<open>The body of \<^verbatim>\<open>checkMove\<close> for a move that is not \<^verbatim>\<open>nullptr\<close>.\<close>

definition checkSquare :: "Board \<Rightarrow> int \<Rightarrow> int \<Rightarrow> Side \<Rightarrow> bool" where
  "checkSquare b X Y side =
     (if occupied b X Y then False
      else list_ex (\<lambda>(dx, dy). captures b side X Y dx dy) directions)"

definition hasMoves :: "Board \<Rightarrow> Side \<Rightarrow> bool" where
  "hasMoves b side = list_ex (\<lambda>(i, j). checkSquare b i j side) squares"

text \<open>\<^verbatim>\<open>checkMove\<close>. The read \<^verbatim>\<open>occupied(X, Y)\<close> of the move's own square is not
  guarded by \<^verbatim>\<open>onBoard\<close>: a move whose bit position \<open>X + 8 * Y\<close> is outside the
  bitset is an error.\<close>

definition checkMove :: "Board \<Rightarrow> move option \<Rightarrow> Side \<Rightarrow> error + bool" where
  "checkMove b m side =
     (case m of
        None \<Rightarrow> Inr (\<not> hasMoves b side)
      | Some (X, Y) \<Rightarrow>
          if inRange (X + 8 * Y) then Inr (checkSquare b X Y side) else Inl OutOfRange)"

subsection \<open>Applying a move\<close>

text \<open>The flipping loop of \<^verbatim>\<open>doMove\<close>:
  \<^verbatim>\<open>while (onBoard(x, y) && get(other, x, y)) { set(side, x, y); x += dx; y += dy; }\<close>.\<close>

function flip_run :: "Board \<Rightarrow> Side \<Rightarrow> int \<Rightarrow> int \<Rightarrow> int \<Rightarrow> int \<Rightarrow> Board" where
  "flip_run b side dx dy x y =
     (if onBoard x y \<and> get b (opposite side) x y \<and> (dx \<noteq> 0 \<or> dy \<noteq> 0)
      then flip_run (set_sq b side x y) side dx dy (x + dx) (y + dy) else b)"
  by pat_completeness auto
termination
  by (relation "measure (\<lambda>(b, side, dx, dy, x, y).
        if dx > 0 then nat (8 - x) else if dx < 0 then nat (x + 1)
        else if dy > 0 then nat (8 - y) else nat (y + 1))")
     (auto simp: onBoard_def)

text \<open>One direction of \<^verbatim>\<open>doMove\<close>: scan to the end of the run of opposing pieces and,
  if a piece of \<open>side\<close> closes it, flip the run.\<close>

definition flip_dir :: "Board \<Rightarrow> Side \<Rightarrow> int \<Rightarrow> int \<Rightarrow> int \<Rightarrow> int \<Rightarrow> Board" where
  "flip_dir b side X Y dx dy =
     (case run_end b (opposite side) dx dy (X + dx) (Y + dy) of
        (x, y) \<Rightarrow>
          if onBoard x y \<and> get b side x y then flip_run b side dx dy (X + dx) (Y + dy) else b)"

text \<open>The part of \<^verbatim>\<open>doMove\<close> after the two early returns: all eight directions in
  turn, each on the board the earlier ones left, then the piece itself.\<close>

definition place :: "Board \<Rightarrow> int \<Rightarrow> int \<Rightarrow> Side \<Rightarrow> Board" where
  "place b X Y side =
     set_sq (fold (\<lambda>(dx, dy) b'. flip_dir b' side X Y dx dy) directions b) side X Y"

definition doMove :: "Board \<Rightarrow> move option \<Rightarrow> Side \<Rightarrow> error + Board" where
  "doMove b m side =
     (case m of
        None \<Rightarrow> Inr b
      | Some (X, Y) \<Rightarrow>
          (case checkMove b (Some (X, Y)) side of
             Inl e \<Rightarrow> Inl e
           | Inr ok \<Rightarrow> if \<not> ok then Inr b else Inr (place b X Y side)))"

text \<open>\<^verbatim>\<open>doMove\<close> for a move whose bit position is inside the bitset, where
  \<^verbatim>\<open>checkMove\<close> cannot fail; this is how the search, which only builds moves
  \<open>(i, j)\<close> with \<open>0 \<le> i, j < 8\<close>, calls it.\<close>

definition doMoveSquare :: "Board \<Rightarrow> int \<Rightarrow> int \<Rightarrow> Side \<Rightarrow> Board" where
  "doMoveSquare b X Y side = (if \<not> checkSquare b X Y side then b else place b X Y side)"

subsection \<open>Counting\<close>

definition countBlack :: "Board \<Rightarrow> int" where
  "countBlack b = int (bs_count (black b))"

text \<open>\<^verbatim>\<open>taken.count() - black.count()\<close> is computed in \<^verbatim>\<open>size_t\<close> and converted
  to \<^verbatim>\<open>int\<close>; both counts are at most 64, so the result is the difference as an
  integer, also when it is negative.\<close>

definition countWhite :: "Board \<Rightarrow> int" where
  "countWhite b = int (bs_count (taken b)) - int (bs_count (black b))"

definition count :: "Board \<Rightarrow> Side \<Rightarrow> int" where
  "count b side = (if side = BLACK then countBlack b else countWhite b)"

subsection \<open>Evaluation\<close>

definition getSquarePosition :: "int \<Rightarrow> int \<Rightarrow> Position" where
  "getSquarePosition x y =
     (let isEdge = (x = 0 \<or> x = 8 - 1 \<or> y = 0 \<or> y = 8 - 1);
          isCorner =
            ((x = 0 \<and> y = 0) \<or>
             (x = 0 \<and> y = 8 - 1) \<or>
             (x = 8 - 1 \<and> y = 0) \<or>
             (x = 8 - 1 \<and> y = 8 - 1));
          isDiagonalToCorner =
            ((x = 1 \<and> y = 1) \<or>
             (x = 1 \<and> y = 8 - 2) \<or>
             (x = 8 - 2 \<and> y = 1) \<or>
             (x = 8 - 2 \<and> y = 8 - 2));
          isNextToCorner =
            ((x = 1 \<and> y = 0) \<or>
             (x = 0 \<and> y = 1) \<or>
             (x = 0 \<and> y = 8 - 2) \<or>
             (x = 1 \<and> y = 8 - 1) \<or>
             (x = 8 - 2 \<and> y = 8 - 1) \<or>
             (x = 8 - 1 \<and> y = 8 - 2) \<or>
             (x = 8 - 2 \<and> y = 0) \<or>
             (x = 8 - 1 \<and> y = 1))
      in if isCorner then CORNER
         else if isDiagonalToCorner then DIAGONAL_TO_CORNER
         else if isNextToCorner then NEXT_TO_CORNER
         else if isEdge then EDGE
         else OTHER)"

text \<open>The squares of the board that \<open>getSquarePosition\<close> puts in a given class.\<close>

definition squaresAt :: "Position \<Rightarrow> move list" where
  "squaresAt pos = filter (\<lambda>(x, y). getSquarePosition x y = pos) squares"

text \<open>The weights of \<^verbatim>\<open>getScore\<close>, in the order of its \<^verbatim>\<open>if\<close> chain.\<close>

definition weight :: "Position \<Rightarrow> int" where
  "weight pos =
     (if pos = CORNER then 3
      else if pos = DIAGONAL_TO_CORNER then - 3
      else if pos = NEXT_TO_CORNER then - 2
      else if pos = EDGE then 2
      else if pos = OTHER then 1
      else 0)"

text \<open>The body of the double loop of \<^verbatim>\<open>getScore\<close> at the square \<open>(i, j)\<close>.\<close>

definition scoreSquare :: "Board \<Rightarrow> Side \<Rightarrow> move \<Rightarrow> int \<Rightarrow> int" where
  "scoreSquare b side sq totalScore =
     (case sq of (i, j) \<Rightarrow>
        if occupied b i j then
          (let additionalScore = weight (getSquarePosition i j);
               additionalScore = (if \<not> get b side i j then - additionalScore else additionalScore)
           in totalScore + additionalScore)
        else totalScore)"

text \<open>\<^verbatim>\<open>getScore\<close>. The sums stay between \<open>- 192\<close> and \<open>192\<close>, far from the
  limits of a C int.\<close>

definition getScore :: "Board \<Rightarrow> Side \<Rightarrow> bool \<Rightarrow> int" where
  "getScore b side testingMinimax =
     (if testingMinimax then
        (if side = BLACK then countBlack b - countWhite b else countWhite b - countBlack b)
      else fold (scoreSquare b side) squares 0)"

subsection \<open>Setting a board from a character array\<close>

text \<open>One iteration of the loop of \<^verbatim>\<open>setBoard\<close> (its two \<^verbatim>\<open>if\<close>s are independent).\<close>

definition setCell :: "string \<Rightarrow> nat \<Rightarrow> Board \<Rightarrow> Board" where
  "setCell data i b =
     (let b1 = (if data ! i = CHR ''b''
                then b \<lparr> taken := bs_set (taken b) (int i) True, black := bs_set (black b) (int i) True \<rparr>
                else b)
      in if data ! i = CHR ''w'' then b1 \<lparr> taken := bs_set (taken b1) (int i) True \<rparr> else b1)"

text \<open>\<^verbatim>\<open>setBoard\<close> reads \<^verbatim>\<open>data[0 .. 63]\<close>; an array shorter than that is an
  out-of-range read in the source and an error here.\<close>

definition setBoard :: "Board \<Rightarrow> string \<Rightarrow> error + Board" where
  "setBoard b data =
     (if length data < 64 then Inl OutOfRange
      else Inr (fold (setCell data) [0..<64] (b \<lparr> taken := 0, black := 0 \<rparr>)))"

section \<open>Player (player.cpp): the search on board values\<close>

text \<open>C ints are modelled as integers. The only operation of the search that can leave
  the 32-bit range is the negation of \<^verbatim>\<open>INT_MIN\<close>, which the source describes as
  wrapping around ("-INT_MIN overflows and becomes negative again"); \<open>neg32\<close> writes
  that out.\<close>

definition INT_MIN :: int where
  "INT_MIN = - 2147483648"

definition INT_MAX :: int where
  "INT_MAX = 2147483647"

definition neg32 :: "int \<Rightarrow> int" where
  "neg32 v = (if v = INT_MIN then INT_MIN else - v)"

text \<open>The two \<^verbatim>\<open>if\<close>s in the body of the loop of \<^verbatim>\<open>negamax\<close>, for the move
  \<open>m\<close> with the score \<open>boardScore\<close>: \<open>Inl\<close> is the \<^verbatim>\<open>return\<close> of the
  cutoff, \<open>Inr\<close> carries the new \<open>alpha\<close> and \<open>moveMade\<close> into the next
  iteration.\<close>

definition visit :: "int \<Rightarrow> int \<Rightarrow> move option \<Rightarrow> move \<Rightarrow> int
    \<Rightarrow> (int \<times> move option) + (int \<times> move option)" where
  "visit beta alpha moveMade m boardScore =
     (case (if boardScore > alpha then (boardScore, Some m) else (alpha, moveMade)) of
        (alpha', moveMade') \<Rightarrow>
          if boardScore > beta then Inl (beta, Some m) else Inr (alpha', moveMade'))"

text \<open>\<^verbatim>\<open>Player::negamax\<close> and its double loop. \<open>this_board\<close> is the value of the
  board behind \<^verbatim>\<open>this->board\<close> and \<open>this_side\<close> is \<^verbatim>\<open>this->side\<close>; \<open>b\<close>
  is the value of the board behind the argument \<^verbatim>\<open>board\<close>. The depth is a natural
  number: the only caller passes 7, and a negative depth never reaches
  \<^verbatim>\<open>depth == 0\<close>.

  \<open>loop\<close> is the double loop over the squares that are still to be visited, with the
  running \<open>alpha\<close> and \<open>moveMade\<close>; \<open>d\<close> is \<^verbatim>\<open>depth - 1\<close>. The
  \<^verbatim>\<open>return\<close> inside the loop ends the recursion.\<close>

fun negamax :: "Board \<Rightarrow> Side \<Rightarrow> Board \<Rightarrow> Side \<Rightarrow> nat \<Rightarrow> int \<Rightarrow> int \<Rightarrow> int \<times> move option"
  and loop :: "Board \<Rightarrow> Side \<Rightarrow> Side \<Rightarrow> nat \<Rightarrow> int \<Rightarrow> move list \<Rightarrow> int \<Rightarrow> move option \<Rightarrow> int \<times> move option"
where
  "negamax this_board this_side b playingSide 0 alpha beta =
     (getScore b this_side True, None)"
| "negamax this_board this_side b playingSide (Suc d) alpha beta =
     (if \<not> hasMoves b playingSide then (getScore b this_side True, None)
      else loop this_board this_side playingSide d beta squares alpha None)"
| "loop this_board this_side playingSide d beta [] alpha moveMade = (alpha, moveMade)"
| "loop this_board this_side playingSide d beta ((i, j) # ms) alpha moveMade =
     (if checkSquare this_board i j playingSide then
        (case visit beta alpha moveMade (i, j)
                (neg32 (fst (negamax this_board this_side
                               (doMoveSquare (copy this_board) i j playingSide)
                               (if playingSide = WHITE then BLACK else WHITE) d
                               (neg32 beta) (neg32 alpha)))) of
           Inl result \<Rightarrow> result
         | Inr (alpha', moveMade') \<Rightarrow> loop this_board this_side playingSide d beta ms alpha' moveMade')
      else loop this_board this_side playingSide d beta ms alpha moveMade)"

text \<open>The value of \<^verbatim>\<open>boardScore\<close> in the body of the loop for the move \<open>m\<close>, when
  the running \<open>alpha\<close> is \<open>alpha\<close>: the negated score of the recursive call.\<close>

definition childScore :: "Board \<Rightarrow> Side \<Rightarrow> Side \<Rightarrow> nat \<Rightarrow> int \<Rightarrow> int \<Rightarrow> move \<Rightarrow> int" where
  "childScore this_board this_side playingSide d beta alpha m =
     neg32 (fst (negamax this_board this_side
                   (doMoveSquare (copy this_board) (fst m) (snd m) playingSide)
                   (if playingSide = WHITE then BLACK else WHITE) d
                   (neg32 beta) (neg32 alpha)))"

text \<open>Whether the loop, started on the squares \<open>ms\<close> with the running \<open>alpha\<close>, leaves
  through the \<^verbatim>\<open>return\<close> of the cutoff.\<close>

fun cutoff :: "Board \<Rightarrow> Side \<Rightarrow> Side \<Rightarrow> nat \<Rightarrow> int \<Rightarrow> move list \<Rightarrow> int \<Rightarrow> bool" where
  "cutoff this_board this_side playingSide d beta [] alpha = False"
| "cutoff this_board this_side playingSide d beta (m # ms) alpha =
     (if checkSquare this_board (fst m) (snd m) playingSide then
        (if childScore this_board this_side playingSide d beta alpha m > beta then True
         else cutoff this_board this_side playingSide d beta ms
                (max alpha (childScore this_board this_side playingSide d beta alpha m)))
      else cutoff this_board this_side playingSide d beta ms alpha)"

section \<open>Boards behind pointers\<close>

text \<open>\<^verbatim>\<open>Player\<close> and \<^verbatim>\<open>negamax\<close> work on \<^verbatim>\<open>Board*\<close>. The store is the list of all
  board objects allocated so far: the address of an object is its index, \<open>Some b\<close> is
  a live object with the value \<open>b\<close>, and \<open>None\<close> is an object that has been deleted.
  Using an address that is not live is an error.\<close>

type_synonym addr = nat

type_synonym heap = "Board option list"

definition deref :: "heap \<Rightarrow> addr \<Rightarrow> error + Board" where
  "deref h p =
     (if p < length h then (case h ! p of Some b \<Rightarrow> Inr b | None \<Rightarrow> Inl BadPointer)
      else Inl BadPointer)"

text \<open>\<^verbatim>\<open>new Board()\<close> and \<^verbatim>\<open>delete\<close>.\<close>

definition new_Board :: "heap \<Rightarrow> heap \<times> addr" where
  "new_Board h = (h @ [Some newBoard], length h)"

definition delete_Board :: "heap \<Rightarrow> addr \<Rightarrow> heap" where
  "delete_Board h p = h[p := None]"

text \<open>\<^verbatim>\<open>p->copy()\<close>: allocate a board, assign both bitsets, return the new address.\<close>

definition copy_h :: "heap \<Rightarrow> addr \<Rightarrow> error + heap \<times> addr" where
  "copy_h h p =
     (case deref h p of
        Inl e \<Rightarrow> Inl e
      | Inr b \<Rightarrow>
          (case new_Board h of
             (h1, q) \<Rightarrow> Inr (h1[q := map_option (\<lambda>n. n \<lparr> black := black b, taken := taken b \<rparr>) (h1 ! q)], q)))"

text \<open>The operations that change a board: \<^verbatim>\<open>doMove\<close>, \<^verbatim>\<open>set\<close> and \<^verbatim>\<open>setBoard\<close>.
  \<^verbatim>\<open>set\<close> called from outside with a bit position outside the bitset throws.\<close>

datatype mutation = DoMove "move option" Side | Set Side int int | SetBoard string

definition mutate :: "Board \<Rightarrow> mutation \<Rightarrow> error + Board" where
  "mutate b mu =
     (case mu of
        DoMove m s \<Rightarrow> doMove b m s
      | Set s x y \<Rightarrow> if inRange (x + 8 * y) then Inr (set_sq b s x y) else Inl OutOfRange
      | SetBoard data \<Rightarrow> setBoard b data)"

text \<open>A mutation through a pointer changes the object at that address, and nothing when
  it fails.\<close>

definition mutate_h :: "heap \<Rightarrow> addr \<Rightarrow> mutation \<Rightarrow> error + heap" where
  "mutate_h h p mu =
     (case deref h p of
        Inl e \<Rightarrow> Inl e
      | Inr b \<Rightarrow> (case mutate b mu of Inl e \<Rightarrow> Inl e | Inr b' \<Rightarrow> Inr (h[p := Some b'])))"

text \<open>A sequence of mutations through one pointer, up to the first failure: the result is
  the store at the end, or at the failure together with its error.\<close>

fun mutate_all_h :: "heap \<Rightarrow> addr \<Rightarrow> mutation list \<Rightarrow> heap \<times> error option" where
  "mutate_all_h h p [] = (h, None)"
| "mutate_all_h h p (mu # mus) =
     (case mutate_h h p mu of Inl e \<Rightarrow> (h, Some e) | Inr h' \<Rightarrow> mutate_all_h h' p mus)"

text \<open>The boards that the operations of \<^verbatim>\<open>Board\<close> can produce from the opening.\<close>

inductive reachable :: "Board \<Rightarrow> bool" where
  reachable_new: "reachable newBoard"
| reachable_copy: "reachable b \<Longrightarrow> reachable (copy b)"
| reachable_mutate: "reachable b \<Longrightarrow> mutate b mu = Inr b' \<Longrightarrow> reachable b'"

text \<open>The invariant of the data model: every black bit is a taken bit.\<close>

definition black_subset_taken :: "Board \<Rightarrow> bool" where
  "black_subset_taken b = (black b AND taken b = black b)"

section \<open>Player (player.cpp) on the store\<close>

record Player =
  board :: addr
  side :: Side
  testingMinimax :: bool

text \<open>\<^verbatim>\<open>Player::negamax\<close> and its loop with the store threaded through. A cutoff
  returns without deleting the child board; otherwise the child is deleted at the end of
  the iteration.\<close>

fun negamax_h :: "Player \<Rightarrow> heap \<Rightarrow> addr \<Rightarrow> Side \<Rightarrow> nat \<Rightarrow> int \<Rightarrow> int \<Rightarrow> error + heap \<times> (int \<times> move option)"
  and loop_h :: "Player \<Rightarrow> Side \<Rightarrow> nat \<Rightarrow> int \<Rightarrow> move list \<Rightarrow> heap \<Rightarrow> int \<Rightarrow> move option
    \<Rightarrow> error + heap \<times> (int \<times> move option)"
where
  "negamax_h pl h bp playingSide 0 alpha beta =
     (case deref h bp of
        Inl e \<Rightarrow> Inl e
      | Inr b \<Rightarrow> Inr (h, (getScore b (side pl) True, None)))"
| "negamax_h pl h bp playingSide (Suc d) alpha beta =
     (case deref h bp of
        Inl e \<Rightarrow> Inl e
      | Inr b \<Rightarrow>
          if \<not> hasMoves b playingSide then Inr (h, (getScore b (side pl) True, None))
          else loop_h pl playingSide d beta squares h alpha None)"
| "loop_h pl playingSide d beta [] h alpha moveMade = Inr (h, (alpha, moveMade))"
| "loop_h pl playingSide d beta (m # ms) h alpha moveMade =
     (case deref h (board pl) of
        Inl e \<Rightarrow> Inl e
      | Inr tb \<Rightarrow>
          (case checkMove tb (Some m) playingSide of
             Inl e \<Rightarrow> Inl e
           | Inr ok \<Rightarrow>
               if ok then
                 (case copy_h h (board pl) of
                    Inl e \<Rightarrow> Inl e
                  | Inr (h1, childBoard) \<Rightarrow>
                      (case mutate_h h1 childBoard (DoMove (Some m) playingSide) of
                         Inl e \<Rightarrow> Inl e
                       | Inr h2 \<Rightarrow>
                           (case negamax_h pl h2 childBoard
                                   (if playingSide = WHITE then BLACK else WHITE) d
                                   (neg32 beta) (neg32 alpha) of
                              Inl e \<Rightarrow> Inl e
                            | Inr (h3, childResults) \<Rightarrow>
                                (case visit beta alpha moveMade m (neg32 (fst childResults)) of
                                   Inl result \<Rightarrow> Inr (h3, result)
                                 | Inr (alpha', moveMade') \<Rightarrow>
                                     loop_h pl playingSide d beta ms (delete_Board h3 childBoard)
                                       alpha' moveMade'))))
               else loop_h pl playingSide d beta ms h alpha moveMade))"

text \<open>\<^verbatim>\<open>Player::doMove\<close>.\<close>

definition Player_doMove :: "Player \<Rightarrow> heap \<Rightarrow> move option \<Rightarrow> int \<Rightarrow> error + heap \<times> move option" where
  "Player_doMove pl h opponentsMove msLeft =
     (case (if opponentsMove \<noteq> None
            then mutate_h h (board pl) (DoMove opponentsMove (if side pl = BLACK then WHITE else BLACK))
            else Inr h) of
        Inl e \<Rightarrow> Inl e
      | Inr h1 \<Rightarrow>
          (case negamax_h pl h1 (board pl) (side pl) 7 (INT_MIN + 1) INT_MAX of
             Inl e \<Rightarrow> Inl e
           | Inr (h2, results) \<Rightarrow>
               (let nextMove = snd results in
                case (if nextMove \<noteq> None
                      then mutate_h h2 (board pl) (DoMove nextMove (side pl))
                      else Inr h2) of
                  Inl e \<Rightarrow> Inl e
                | Inr h3 \<Rightarrow> Inr (h3, nextMove))))"

text \<open>What a call of the search on the store has to do, for the statements below: return
  normally with the result \<open>r\<close>, and leave every object that existed before the call
  as it was.\<close>

definition returns :: "heap \<Rightarrow> error + heap \<times> (int \<times> move option) \<Rightarrow> int \<times> move option \<Rightarrow> bool" where
  "returns h res r =
     (\<exists>h'. res = Inr (h', r) \<and> length h \<le> length h' \<and> (\<forall>p < length h. h' ! p = h ! p))"

section \<open>Bitsets and counts\<close>

text \<open>The opening as two numbers: bits 27, 28, 35, 36 are taken, bits 28 and 35 are black.\<close>

lemma newBoard_code [code]: "newBoard = \<lparr> taken = 103481868288, black = 34628173824 \<rparr>"
  by (simp add: newBoard_def bs_set_def inRange_def)

lemma bits_bound: "n \<in> bits w \<Longrightarrow> n < 64"
  using bit_imp_le_length [of w n] by (simp add: bits_def)

lemma finite_bits: "finite (bits w)"
proof (rule finite_subset)
  show "bits w \<subseteq> {..<64}" using bits_bound by auto
qed simp

lemma bs_count_card: "bs_count w = card (bits w)"
proof -
  have "set (filter (bit w) [0..<64]) = bits w"
    using bits_bound by (auto simp: bits_def)
  moreover have "distinct (filter (bit w) [0..<64])" by simp
  ultimately show ?thesis
    unfolding bs_count_def using distinct_card by fastforce
qed

lemma bits_eqI: "bits v = bits w \<Longrightarrow> v = w"
  by (rule bit_eqI) (auto simp: bits_def)

lemma bs_test_bits: "bs_test w i = (inRange i \<and> nat i \<in> bits w)"
  by (simp add: bs_test_def bits_def)

lemma bits_bs_set_True: "inRange i \<Longrightarrow> bits (bs_set w i True) = insert (nat i) (bits w)"
  by (auto simp: bs_set_def bits_def bit_set_bit_iff inRange_def)

lemma bits_bs_set_False: "bits (bs_set w i False) = (if inRange i then bits w - {nat i} else bits w)"
  by (auto simp: bs_set_def bits_def bit_unset_bit_iff)

lemma bs_set_outside: "\<not> inRange i \<Longrightarrow> bs_set w i v = w"
  by (simp add: bs_set_def)

lemma onBoard_inRange: "onBoard x y \<Longrightarrow> inRange (x + 8 * y)"
  by (auto simp: onBoard_def inRange_def)

lemma taken_set_sq_occupied: "occupied b x y \<Longrightarrow> taken (set_sq b s x y) = taken b"
  by (rule bits_eqI) (auto simp: set_sq_def occupied_def bs_test_bits bits_bs_set_True)

lemma flip_run_step:
  "onBoard x y \<Longrightarrow> get b (opposite s) x y \<Longrightarrow> dx \<noteq> 0 \<or> dy \<noteq> 0 \<Longrightarrow>
   flip_run b s dx dy x y = flip_run (set_sq b s x y) s dx dy (x + dx) (y + dy)"
  by (subst flip_run.simps) simp

lemma flip_run_stop:
  "\<not> (onBoard x y \<and> get b (opposite s) x y \<and> (dx \<noteq> 0 \<or> dy \<noteq> 0)) \<Longrightarrow> flip_run b s dx dy x y = b"
  by (subst flip_run.simps) auto

lemma run_end_step:
  "onBoard x y \<Longrightarrow> get b other x y \<Longrightarrow> dx \<noteq> 0 \<or> dy \<noteq> 0 \<Longrightarrow>
   run_end b other dx dy x y = run_end b other dx dy (x + dx) (y + dy)"
  by (subst run_end.simps) simp

lemma run_end_stop:
  "\<not> (onBoard x y \<and> get b other x y \<and> (dx \<noteq> 0 \<or> dy \<noteq> 0)) \<Longrightarrow> run_end b other dx dy x y = (x, y)"
  by (subst run_end.simps) auto

declare flip_run.simps [simp del] run_end.simps [simp del]

lemma taken_flip_run: "taken (flip_run b s dx dy x y) = taken b"
proof (induction b s dx dy x y rule: flip_run.induct)
  case (1 b s dx dy x y)
  show ?case
  proof (cases "onBoard x y \<and> get b (opposite s) x y \<and> (dx \<noteq> 0 \<or> dy \<noteq> 0)")
    case True
    then have "occupied b x y" by (simp add: get_def)
    with True 1 show ?thesis
      by (simp add: flip_run_step taken_set_sq_occupied)
  next
    case False
    then show ?thesis by (simp add: flip_run_stop [OF False])
  qed
qed

lemma taken_flip_dir: "taken (flip_dir b s X Y dx dy) = taken b"
  by (simp add: flip_dir_def taken_flip_run split: prod.splits)

lemma taken_fold_flip_dir:
  "taken (fold (\<lambda>(dx, dy) b'. flip_dir b' s X Y dx dy) ds b) = taken b"
  by (induction ds arbitrary: b) (auto simp: taken_flip_dir)

lemma black_set_sq_BLACK: "bits (black b) \<subseteq> bits (black (set_sq b BLACK x y))"
  by (cases "inRange (x + 8 * y)") (auto simp: set_sq_def bits_bs_set_True bs_set_outside)

lemma black_set_sq_WHITE: "bits (black (set_sq b WHITE x y)) \<subseteq> bits (black b)"
  by (auto simp: set_sq_def bits_bs_set_False)

lemma black_flip_run_BLACK: "bits (black b) \<subseteq> bits (black (flip_run b BLACK dx dy x y))"
proof (induction b BLACK dx dy x y rule: flip_run.induct)
  case (1 b dx dy x y)
  show ?case
  proof (cases "onBoard x y \<and> get b (opposite BLACK) x y \<and> (dx \<noteq> 0 \<or> dy \<noteq> 0)")
    case True
    then have c: "onBoard x y" "get b (opposite BLACK) x y" "dx \<noteq> 0 \<or> dy \<noteq> 0" by simp_all
    from 1 [OF True] have "bits (black (set_sq b BLACK x y)) \<subseteq> bits (black (flip_run b BLACK dx dy x y))"
      by (simp add: flip_run_step [OF c])
    with black_set_sq_BLACK [of b x y] show ?thesis by blast
  next
    case False
    then show ?thesis by (simp add: flip_run_stop [OF False])
  qed
qed

lemma black_flip_run_WHITE: "bits (black (flip_run b WHITE dx dy x y)) \<subseteq> bits (black b)"
proof (induction b WHITE dx dy x y rule: flip_run.induct)
  case (1 b dx dy x y)
  show ?case
  proof (cases "onBoard x y \<and> get b (opposite WHITE) x y \<and> (dx \<noteq> 0 \<or> dy \<noteq> 0)")
    case True
    then have c: "onBoard x y" "get b (opposite WHITE) x y" "dx \<noteq> 0 \<or> dy \<noteq> 0" by simp_all
    from 1 [OF True] have "bits (black (flip_run b WHITE dx dy x y)) \<subseteq> bits (black (set_sq b WHITE x y))"
      by (simp add: flip_run_step [OF c])
    with black_set_sq_WHITE [of b x y] show ?thesis by blast
  next
    case False
    then show ?thesis by (simp add: flip_run_stop [OF False])
  qed
qed

lemma black_flip_dir_BLACK: "bits (black b) \<subseteq> bits (black (flip_dir b BLACK X Y dx dy))"
  by (simp add: flip_dir_def black_flip_run_BLACK split: prod.splits)

lemma black_flip_dir_WHITE: "bits (black (flip_dir b WHITE X Y dx dy)) \<subseteq> bits (black b)"
  by (simp add: flip_dir_def black_flip_run_WHITE split: prod.splits)

lemma black_fold_BLACK:
  "bits (black b) \<subseteq> bits (black (fold (\<lambda>(dx, dy) b'. flip_dir b' BLACK X Y dx dy) ds b))"
proof (induction ds arbitrary: b)
  case Nil
  show ?case by simp
next
  case (Cons d ds)
  obtain dx dy where d: "d = (dx, dy)" by (cases d)
  from Cons [of "flip_dir b BLACK X Y dx dy"] black_flip_dir_BLACK [of b X Y dx dy]
  show ?case by (auto simp: d)
qed

lemma black_fold_WHITE:
  "bits (black (fold (\<lambda>(dx, dy) b'. flip_dir b' WHITE X Y dx dy) ds b)) \<subseteq> bits (black b)"
proof (induction ds arbitrary: b)
  case Nil
  show ?case by simp
next
  case (Cons d ds)
  obtain dx dy where d: "d = (dx, dy)" by (cases d)
  from Cons [of "flip_dir b WHITE X Y dx dy"] black_flip_dir_WHITE [of b X Y dx dy]
  show ?case by (auto simp: d)
qed

text \<open>A direction without a capture leaves the board as it is.\<close>

lemma flip_dir_no_capture:
  assumes "\<not> captures b s X Y dx dy" and "dx \<noteq> 0 \<or> dy \<noteq> 0"
  shows "flip_dir b s X Y dx dy = b"
proof (cases "onBoard (X + dx) (Y + dy) \<and> get b (opposite s) (X + dx) (Y + dy)")
  case True
  with assms have "run_end b (opposite s) dx dy (X + dx) (Y + dy)
      = run_end b (opposite s) dx dy (X + dx + dx) (Y + dy + dy)"
    by (simp add: run_end_step)
  with True assms show ?thesis
    by (auto simp: flip_dir_def captures_def Let_def split: prod.splits)
next
  case False
  then have "flip_run b s dx dy (X + dx) (Y + dy) = b"
    by (intro flip_run_stop) blast
  then show ?thesis by (simp add: flip_dir_def split: prod.splits)
qed

text \<open>A direction with a capture for BLACK turns at least the neighbouring piece black.\<close>

lemma flip_dir_capture_BLACK:
  assumes "captures b BLACK X Y dx dy" and "dx \<noteq> 0 \<or> dy \<noteq> 0"
  shows "card (bits (black b)) < card (bits (black (flip_dir b BLACK X Y dx dy)))"
proof -
  let ?x = "X + dx" and ?y = "Y + dy"
  from assms have on: "onBoard ?x ?y" and g: "get b WHITE ?x ?y"
    by (auto simp: captures_def Let_def opposite_def split: if_splits)
  from on g assms(2) have "run_end b WHITE dx dy ?x ?y = run_end b WHITE dx dy (?x + dx) (?y + dy)"
    by (simp add: run_end_step)
  with assms on g have fd: "flip_dir b BLACK X Y dx dy = flip_run b BLACK dx dy ?x ?y"
    by (auto simp: flip_dir_def captures_def Let_def opposite_def split: prod.splits)
  from on g assms(2) have fr: "flip_run b BLACK dx dy ?x ?y
      = flip_run (set_sq b BLACK ?x ?y) BLACK dx dy (?x + dx) (?y + dy)"
    by (simp add: flip_run_step opposite_def)
  from on have ir: "inRange (?x + 8 * ?y)" by (rule onBoard_inRange)
  from g ir have notin: "nat (?x + 8 * ?y) \<notin> bits (black b)"
    by (simp add: get_def bs_test_bits)
  from ir have "bits (black (set_sq b BLACK ?x ?y)) = insert (nat (?x + 8 * ?y)) (bits (black b))"
    by (simp add: set_sq_def bits_bs_set_True)
  with notin have "card (bits (black b)) < card (bits (black (set_sq b BLACK ?x ?y)))"
    by (simp add: finite_bits)
  also have "\<dots> \<le> card (bits (black (flip_dir b BLACK X Y dx dy)))"
    unfolding fd fr by (rule card_mono [OF finite_bits black_flip_run_BLACK])
  finally show ?thesis .
qed

lemma fold_capture_BLACK:
  assumes "list_ex (\<lambda>(dx, dy). captures b BLACK X Y dx dy) ds"
    and "\<forall>(dx, dy) \<in> set ds. dx \<noteq> 0 \<or> dy \<noteq> 0"
  shows "card (bits (black b))
     < card (bits (black (fold (\<lambda>(dx, dy) b'. flip_dir b' BLACK X Y dx dy) ds b)))"
  using assms
proof (induction ds)
  case Nil
  then show ?case by simp
next
  case (Cons d ds)
  obtain dx dy where d: "d = (dx, dy)" by (cases d)
  from Cons.prems(2) d have nz: "dx \<noteq> 0 \<or> dy \<noteq> 0" by simp
  show ?case
  proof (cases "captures b BLACK X Y dx dy")
    case True
    from flip_dir_capture_BLACK [OF True nz]
    have "card (bits (black b)) < card (bits (black (flip_dir b BLACK X Y dx dy)))" .
    also have "\<dots> \<le> card (bits (black (fold (\<lambda>(dx, dy) b'. flip_dir b' BLACK X Y dx dy) ds
        (flip_dir b BLACK X Y dx dy))))"
      by (rule card_mono [OF finite_bits black_fold_BLACK])
    finally show ?thesis by (simp add: d)
  next
    case False
    with Cons.prems d have "list_ex (\<lambda>(dx, dy). captures b BLACK X Y dx dy) ds" by simp
    moreover from Cons.prems(2) have "\<forall>(dx, dy) \<in> set ds. dx \<noteq> 0 \<or> dy \<noteq> 0" by simp
    ultimately have "card (bits (black b))
       < card (bits (black (fold (\<lambda>(dx, dy) b'. flip_dir b' BLACK X Y dx dy) ds b)))"
      by (rule Cons.IH)
    with flip_dir_no_capture [OF False nz] show ?thesis by (simp add: d)
  qed
qed

lemma directions_nonzero: "\<forall>(dx, dy) \<in> set directions. dx \<noteq> 0 \<or> dy \<noteq> 0"
  by (simp add: directions_def)

lemma taken_place:
  "inRange (X + 8 * Y) \<Longrightarrow> bits (taken (place b X Y s)) = insert (nat (X + 8 * Y)) (bits (taken b))"
  by (simp add: place_def set_sq_def bits_bs_set_True taken_fold_flip_dir)

lemma count_taken_place:
  assumes "inRange (X + 8 * Y)" and "\<not> occupied b X Y"
  shows "bs_count (taken (place b X Y s)) = bs_count (taken b) + 1"
proof -
  from assms have "nat (X + 8 * Y) \<notin> bits (taken b)"
    by (simp add: occupied_def bs_test_bits)
  with taken_place [OF assms(1)] show ?thesis
    by (simp add: bs_count_card finite_bits)
qed

lemma count_black_place_WHITE: "bs_count (black (place b X Y WHITE)) \<le> bs_count (black b)"
proof -
  have "bits (black (place b X Y WHITE)) \<subseteq> bits (black b)"
    unfolding place_def using black_set_sq_WHITE black_fold_WHITE by blast
  then show ?thesis by (simp add: bs_count_card card_mono finite_bits)
qed

lemma count_black_place_BLACK:
  assumes "checkSquare b X Y BLACK"
  shows "bs_count (black b) < bs_count (black (place b X Y BLACK))"
proof -
  let ?b1 = "fold (\<lambda>(dx, dy) b'. flip_dir b' BLACK X Y dx dy) directions b"
  from assms have "list_ex (\<lambda>(dx, dy). captures b BLACK X Y dx dy) directions"
    by (simp add: checkSquare_def split: if_splits)
  then have "card (bits (black b)) < card (bits (black ?b1))"
    using directions_nonzero by (rule fold_capture_BLACK)
  also have "\<dots> \<le> card (bits (black (place b X Y BLACK)))"
    unfolding place_def by (rule card_mono [OF finite_bits black_set_sq_BLACK])
  finally show ?thesis by (simp add: bs_count_card)
qed

lemma place_counts:
  assumes "checkSquare b X Y s" and "inRange (X + 8 * Y)"
  shows "count b s < count (place b X Y s) s
     \<and> count (place b X Y s) (opposite s) \<le> count b (opposite s)
     \<and> bs_count (taken (place b X Y s)) = bs_count (taken b) + 1"
proof -
  from assms(1) have "\<not> occupied b X Y"
    by (auto simp: checkSquare_def split: if_splits)
  with assms(2) have t: "bs_count (taken (place b X Y s)) = bs_count (taken b) + 1"
    by (rule count_taken_place)
  show ?thesis
  proof (cases s)
    case WHITE
    with t count_black_place_WHITE [of b X Y] show ?thesis
      by (simp add: count_def countWhite_def countBlack_def opposite_def)
  next
    case BLACK
    with t count_black_place_BLACK [of b X Y] assms(1) show ?thesis
      by (simp add: count_def countWhite_def countBlack_def opposite_def)
  qed
qed

text \<open>Claim C3. For every board, every move \<open>m\<close> and side \<open>s\<close> for which
  \<^verbatim>\<open>checkMove(m, s)\<close> answers that the placement is legal, \<^verbatim>\<open>doMove(m, s)\<close>
  returns normally and afterwards the count of \<open>s\<close> is strictly larger, the count of
  the opponent is not larger, and the number of occupied squares (the taken bits, which is
  the sum of the two counts) is larger by exactly one.\<close>

theorem doMove_legal_counts:
  assumes "checkMove b (Some m) s = Inr True"
  shows "\<exists>b'. doMove b (Some m) s = Inr b'
     \<and> count b s < count b' s
     \<and> count b' (opposite s) \<le> count b (opposite s)
     \<and> bs_count (taken b') = bs_count (taken b) + 1
     \<and> count b' BLACK + count b' WHITE = count b BLACK + count b WHITE + 1"
proof -
  obtain X Y where m: "m = (X, Y)" by (cases m)
  from assms m have ir: "inRange (X + 8 * Y)" and ok: "checkSquare b X Y s"
    by (auto simp: checkMove_def split: if_splits)
  from assms m have "doMove b (Some m) s = Inr (place b X Y s)"
    by (simp add: doMove_def)
  with place_counts [OF ok ir] show ?thesis
    by (simp add: count_def countWhite_def countBlack_def)
qed

theorem doMove_legal_counts_witness:
  "checkMove newBoard (Some (2, 3)) BLACK = Inr True
   \<and> (\<exists>b'. doMove newBoard (Some (2, 3)) BLACK = Inr b'
     \<and> count newBoard BLACK < count b' BLACK
     \<and> count b' (opposite BLACK) \<le> count newBoard (opposite BLACK)
     \<and> bs_count (taken b') = bs_count (taken newBoard) + 1
     \<and> count b' BLACK + count b' WHITE = count newBoard BLACK + count newBoard WHITE + 1)"
proof -
  have h: "checkMove newBoard (Some (2, 3)) BLACK = Inr True" by code_simp
  from doMove_legal_counts [OF h] h show ?thesis by simp
qed

text \<open>Claim C4. For every board and side, \<^verbatim>\<open>doMove\<close> with a pass (\<^verbatim>\<open>nullptr\<close>) or
  with a placement that \<^verbatim>\<open>checkMove\<close> answers to be illegal returns the board
  unchanged: both bitsets are the same.\<close>

theorem doMove_noop:
  "m = None \<or> checkMove b m s = Inr False \<Longrightarrow> doMove b m s = Inr b"
  by (cases m) (auto simp: doMove_def)

theorem doMove_noop_witness:
  "checkMove newBoard (Some (0, 0)) BLACK = Inr False
   \<and> doMove newBoard (Some (0, 0)) BLACK = Inr newBoard
   \<and> doMove newBoard None BLACK = Inr newBoard"
proof -
  have h: "checkMove newBoard (Some (0, 0)) BLACK = Inr False" by code_simp
  from h doMove_noop [of "Some (0, 0)" newBoard BLACK] doMove_noop [of None newBoard BLACK]
  show ?thesis by simp
qed

subsection \<open>The invariant\<close>

lemma black_subset_taken_bits: "black_subset_taken b = (bits (black b) \<subseteq> bits (taken b))"
proof
  assume "black_subset_taken b"
  then have e: "black b AND taken b = black b" by (simp add: black_subset_taken_def)
  show "bits (black b) \<subseteq> bits (taken b)"
  proof
    fix n assume "n \<in> bits (black b)"
    then have "bit (black b AND taken b) n" by (simp add: e bits_def)
    then show "n \<in> bits (taken b)" by (simp add: bits_def bit_and_iff)
  qed
next
  assume "bits (black b) \<subseteq> bits (taken b)"
  then have "black b AND taken b = black b"
    by (intro bit_eqI) (auto simp: bits_def bit_and_iff)
  then show "black_subset_taken b" by (simp add: black_subset_taken_def)
qed

lemma inv_set_sq: "black_subset_taken b \<Longrightarrow> black_subset_taken (set_sq b s x y)"
  by (cases "inRange (x + 8 * y)"; cases s)
     (auto simp: black_subset_taken_bits set_sq_def bits_bs_set_True bits_bs_set_False bs_set_outside)

lemma inv_flip_run: "black_subset_taken b \<Longrightarrow> black_subset_taken (flip_run b s dx dy x y)"
proof (induction b s dx dy x y rule: flip_run.induct)
  case (1 b s dx dy x y)
  show ?case
  proof (cases "onBoard x y \<and> get b (opposite s) x y \<and> (dx \<noteq> 0 \<or> dy \<noteq> 0)")
    case True
    then have c: "onBoard x y" "get b (opposite s) x y" "dx \<noteq> 0 \<or> dy \<noteq> 0" by simp_all
    from 1(1) [OF True inv_set_sq [OF 1(2)]] show ?thesis
      by (simp add: flip_run_step [OF c])
  next
    case False
    with 1(2) show ?thesis by (simp add: flip_run_stop [OF False])
  qed
qed

lemma inv_flip_dir: "black_subset_taken b \<Longrightarrow> black_subset_taken (flip_dir b s X Y dx dy)"
  by (simp add: flip_dir_def inv_flip_run split: prod.splits)

lemma inv_fold_flip_dir:
  "black_subset_taken b \<Longrightarrow>
   black_subset_taken (fold (\<lambda>(dx, dy) b'. flip_dir b' s X Y dx dy) ds b)"
  by (induction ds arbitrary: b) (auto simp: inv_flip_dir)

lemma inv_place: "black_subset_taken b \<Longrightarrow> black_subset_taken (place b X Y s)"
  by (simp add: place_def inv_set_sq inv_fold_flip_dir)

lemma inv_doMove: "black_subset_taken b \<Longrightarrow> doMove b m s = Inr b' \<Longrightarrow> black_subset_taken b'"
  by (auto simp: doMove_def inv_place split: option.splits sum.splits if_splits)

lemma inv_setCell: "black_subset_taken b \<Longrightarrow> black_subset_taken (setCell data i b)"
  by (cases "inRange (int i)")
     (auto simp: black_subset_taken_bits setCell_def Let_def bits_bs_set_True bs_set_outside)

lemma inv_fold_setCell: "black_subset_taken b \<Longrightarrow> black_subset_taken (fold (setCell data) is b)"
  by (induction "is" arbitrary: b) (simp_all add: inv_setCell)

lemma inv_setBoard: "setBoard b data = Inr b' \<Longrightarrow> black_subset_taken b'"
proof -
  have "black_subset_taken (b \<lparr> taken := 0, black := 0 \<rparr>)"
    by (simp add: black_subset_taken_def)
  then show "setBoard b data = Inr b' \<Longrightarrow> black_subset_taken b'"
    by (auto simp: setBoard_def inv_fold_setCell split: if_splits)
qed

lemma inv_copy: "black_subset_taken b \<Longrightarrow> black_subset_taken (copy b)"
  by (simp add: black_subset_taken_def copy_def)

lemma inv_newBoard: "black_subset_taken newBoard"
proof -
  have "bits (black newBoard) \<subseteq> bits (taken newBoard)"
    by (auto simp: newBoard_def bits_bs_set_True inRange_def)
  then show ?thesis by (simp add: black_subset_taken_bits)
qed

lemma inv_mutate: "black_subset_taken b \<Longrightarrow> mutate b mu = Inr b' \<Longrightarrow> black_subset_taken b'"
  by (cases mu) (auto simp: mutate_def inv_doMove inv_set_sq inv_setBoard split: if_splits)

lemma inv_reachable: "reachable b \<Longrightarrow> black_subset_taken b"
  by (induction rule: reachable.induct) (auto simp: inv_newBoard inv_copy inv_mutate)

text \<open>Claim C6. The black bits are a subset of the taken bits in the board of the
  constructor; \<^verbatim>\<open>set\<close>, \<^verbatim>\<open>doMove\<close>, \<^verbatim>\<open>setBoard\<close> and \<^verbatim>\<open>copy\<close> keep
  it so (\<^verbatim>\<open>setBoard\<close> establishes it from any board); hence it holds of every
  board reachable from the opening by these operations.\<close>

theorem black_subset_taken_invariant:
  "black_subset_taken newBoard
   \<and> (black_subset_taken b1 \<longrightarrow> black_subset_taken (set_sq b1 s1 x y))
   \<and> (black_subset_taken b2 \<and> doMove b2 m s2 = Inr b2' \<longrightarrow> black_subset_taken b2')
   \<and> (setBoard b3 data = Inr b3' \<longrightarrow> black_subset_taken b3')
   \<and> (black_subset_taken b4 \<longrightarrow> black_subset_taken (copy b4))
   \<and> (reachable b5 \<longrightarrow> black_subset_taken b5)"
  using inv_newBoard inv_set_sq inv_doMove inv_setBoard inv_copy inv_reachable by blast

theorem black_subset_taken_invariant_witness:
  "black_subset_taken newBoard
   \<and> black_subset_taken (set_sq newBoard WHITE 0 0)
   \<and> doMove newBoard (Some (2, 3)) BLACK = Inr (place newBoard 2 3 BLACK)
   \<and> black_subset_taken (place newBoard 2 3 BLACK)
   \<and> setBoard newBoard (replicate 64 CHR ''b'')
       = Inr (fold (setCell (replicate 64 CHR ''b'')) [0..<64] (newBoard \<lparr> taken := 0, black := 0 \<rparr>))
   \<and> black_subset_taken
        (fold (setCell (replicate 64 CHR ''b'')) [0..<64] (newBoard \<lparr> taken := 0, black := 0 \<rparr>))
   \<and> black_subset_taken (copy newBoard)
   \<and> reachable (copy newBoard)"
proof -
  have c: "checkMove newBoard (Some (2, 3)) BLACK = Inr True" by code_simp
  then have d: "doMove newBoard (Some (2, 3)) BLACK = Inr (place newBoard 2 3 BLACK)"
    by (simp add: doMove_def)
  have sb: "setBoard newBoard (replicate 64 CHR ''b'')
      = Inr (fold (setCell (replicate 64 CHR ''b'')) [0..<64] (newBoard \<lparr> taken := 0, black := 0 \<rparr>))"
    by (simp add: setBoard_def)
  have r: "reachable (copy newBoard)" by (intro reachable_copy reachable_new)
  from black_subset_taken_invariant
    [of newBoard WHITE 0 0 newBoard "Some (2, 3)" BLACK "place newBoard 2 3 BLACK"
        newBoard "replicate 64 CHR ''b''"
        "fold (setCell (replicate 64 CHR ''b'')) [0..<64] (newBoard \<lparr> taken := 0, black := 0 \<rparr>)"
        newBoard "copy newBoard"]
    d sb r
  show ?thesis by simp
qed

section \<open>Evaluation\<close>

lemma getSquarePosition_CORNER:
  "getSquarePosition x y = CORNER \<longleftrightarrow> (x, y) \<in> {(0, 0), (0, 7), (7, 0), (7, 7)}"
  by (simp add: getSquarePosition_def)

lemma getSquarePosition_DIAGONAL:
  "getSquarePosition x y = DIAGONAL_TO_CORNER \<longleftrightarrow> (x, y) \<in> {(1, 1), (1, 6), (6, 1), (6, 6)}"
  by (auto simp add: getSquarePosition_def)

lemma getSquarePosition_NEXT:
  "getSquarePosition x y = NEXT_TO_CORNER \<longleftrightarrow>
     (x, y) \<in> {(1, 0), (0, 1), (0, 6), (1, 7), (6, 7), (7, 6), (6, 0), (7, 1)}"
  by (auto simp add: getSquarePosition_def)

lemma getSquarePosition_EDGE:
  "getSquarePosition x y = EDGE \<longleftrightarrow>
     (x = 0 \<or> x = 7 \<or> y = 0 \<or> y = 7) \<and>
     (x, y) \<notin> {(0, 0), (0, 7), (7, 0), (7, 7)} \<and>
     (x, y) \<notin> {(1, 0), (0, 1), (0, 6), (1, 7), (6, 7), (7, 6), (6, 0), (7, 1)}"
  by (auto simp add: getSquarePosition_def)

lemma getSquarePosition_OTHER:
  "getSquarePosition x y = OTHER \<longleftrightarrow>
     x \<noteq> 0 \<and> x \<noteq> 7 \<and> y \<noteq> 0 \<and> y \<noteq> 7 \<and> (x, y) \<notin> {(1, 1), (1, 6), (6, 1), (6, 6)}"
  by (auto simp add: getSquarePosition_def)

text \<open>Claim C9, as amended. From the coordinates alone, with board size 8,
  \<^verbatim>\<open>getSquarePosition\<close> answers \<open>CORNER\<close> for exactly the four corners,
  \<open>DIAGONAL_TO_CORNER\<close> for exactly the four squares one step diagonally inward from a
  corner, \<open>NEXT_TO_CORNER\<close> for exactly the eight squares next to a corner along an
  edge, \<open>EDGE\<close> for exactly the remaining squares of the first and last row and column,
  and \<open>OTHER\<close> for everything else.\<close>

theorem getSquarePosition_classes:
  "(getSquarePosition x y = CORNER \<longleftrightarrow> (x, y) \<in> {(0, 0), (0, 7), (7, 0), (7, 7)})
   \<and> (getSquarePosition x y = DIAGONAL_TO_CORNER \<longleftrightarrow> (x, y) \<in> {(1, 1), (1, 6), (6, 1), (6, 6)})
   \<and> (getSquarePosition x y = NEXT_TO_CORNER \<longleftrightarrow>
        (x, y) \<in> {(1, 0), (0, 1), (0, 6), (1, 7), (6, 7), (7, 6), (6, 0), (7, 1)})
   \<and> (getSquarePosition x y = EDGE \<longleftrightarrow>
        (x = 0 \<or> x = 7 \<or> y = 0 \<or> y = 7) \<and>
        (x, y) \<notin> {(0, 0), (0, 7), (7, 0), (7, 7)} \<and>
        (x, y) \<notin> {(1, 0), (0, 1), (0, 6), (1, 7), (6, 7), (7, 6), (6, 0), (7, 1)})
   \<and> (getSquarePosition x y = OTHER \<longleftrightarrow>
        x \<noteq> 0 \<and> x \<noteq> 7 \<and> y \<noteq> 0 \<and> y \<noteq> 7 \<and> (x, y) \<notin> {(1, 1), (1, 6), (6, 1), (6, 6)})"
  using getSquarePosition_CORNER [of x y] getSquarePosition_DIAGONAL [of x y]
    getSquarePosition_NEXT [of x y] getSquarePosition_EDGE [of x y]
    getSquarePosition_OTHER [of x y]
  by blast

theorem getSquarePosition_classes_witness:
  "getSquarePosition 6 1 = DIAGONAL_TO_CORNER \<and> getSquarePosition 0 3 = EDGE
   \<and> getSquarePosition 7 7 = CORNER \<and> getSquarePosition 1 7 = NEXT_TO_CORNER
   \<and> getSquarePosition 2 5 = OTHER"
  using getSquarePosition_classes [of 6 1] getSquarePosition_classes [of 0 3]
    getSquarePosition_classes [of 7 7] getSquarePosition_classes [of 1 7]
    getSquarePosition_classes [of 2 5]
  by simp

text \<open>The claim as stated, with eight squares diagonal to a corner, fails: the board has
  four.\<close>

theorem diagonal_squares_counterexample:
  "squaresAt DIAGONAL_TO_CORNER = [(1, 1), (1, 6), (6, 1), (6, 6)]
   \<and> length (squaresAt DIAGONAL_TO_CORNER) \<noteq> 8"
  by code_simp

lemma get_WHITE_BLACK: "occupied b x y \<Longrightarrow> get b WHITE x y = (\<not> get b BLACK x y)"
  by (simp add: get_def)

lemma scoreSquare_neg:
  "scoreSquare b WHITE sq (- t) = - scoreSquare b BLACK sq t"
  by (cases sq) (simp add: scoreSquare_def get_WHITE_BLACK Let_def)

lemma fold_scoreSquare_neg:
  "fold (scoreSquare b WHITE) sqs (- t) = - fold (scoreSquare b BLACK) sqs t"
  by (induction sqs arbitrary: t) (simp_all add: scoreSquare_neg)

text \<open>Claim C10. For every board (any contents of the two bitsets) and both modes of
  \<^verbatim>\<open>getScore\<close>, the score for WHITE is the negation of the score for BLACK.\<close>

theorem getScore_antisymmetric:
  "getScore b WHITE mode = - getScore b BLACK mode"
  using fold_scoreSquare_neg [of b squares 0] by (simp add: getScore_def)

theorem getScore_antisymmetric_witness:
  "getScore (place newBoard 2 3 BLACK) WHITE False = - getScore (place newBoard 2 3 BLACK) BLACK False
   \<and> getScore (place newBoard 2 3 BLACK) WHITE True = - getScore (place newBoard 2 3 BLACK) BLACK True"
  using getScore_antisymmetric [of "place newBoard 2 3 BLACK" False]
    getScore_antisymmetric [of "place newBoard 2 3 BLACK" True]
  by simp

section \<open>The search on board values\<close>

lemma loop_Cons:
  "loop tb ts s d beta (m # ms) alpha moveMade =
     (if checkSquare tb (fst m) (snd m) s then
        (case visit beta alpha moveMade m (childScore tb ts s d beta alpha m) of
           Inl result \<Rightarrow> result
         | Inr (alpha', moveMade') \<Rightarrow> loop tb ts s d beta ms alpha' moveMade')
      else loop tb ts s d beta ms alpha moveMade)"
  by (cases m) (simp add: childScore_def)

lemma loop_cutoff_step:
  "checkSquare tb (fst m) (snd m) s \<Longrightarrow> beta < childScore tb ts s d beta alpha m \<Longrightarrow>
   loop tb ts s d beta (m # ms) alpha moveMade = (beta, Some m)"
  by (simp add: loop_Cons visit_def)

lemma loop_tie_step:
  "checkSquare tb (fst m) (snd m) s \<Longrightarrow> childScore tb ts s d beta alpha m \<le> alpha \<Longrightarrow>
   childScore tb ts s d beta alpha m \<le> beta \<Longrightarrow>
   loop tb ts s d beta (m # ms) alpha moveMade = loop tb ts s d beta ms alpha moveMade"
  by (simp add: loop_Cons visit_def)

lemma loop_improve_step:
  "checkSquare tb (fst m) (snd m) s \<Longrightarrow> alpha < childScore tb ts s d beta alpha m \<Longrightarrow>
   childScore tb ts s d beta alpha m \<le> beta \<Longrightarrow>
   loop tb ts s d beta (m # ms) alpha moveMade
     = loop tb ts s d beta ms (childScore tb ts s d beta alpha m) (Some m)"
  by (simp add: loop_Cons visit_def)

lemma loop_illegal_step:
  "\<not> checkSquare tb (fst m) (snd m) s \<Longrightarrow>
   loop tb ts s d beta (m # ms) alpha moveMade = loop tb ts s d beta ms alpha moveMade"
  by (simp add: loop_Cons)

lemma loop_first_wins:
  assumes "\<not> cutoff tb ts s d beta sqs alpha"
    and "loop tb ts s d beta sqs alpha moveMade = (a, best)"
  shows "(a = alpha \<and> best = moveMade) \<or>
    (\<exists>pre m post. sqs = pre @ m # post \<and> best = Some m \<and> checkSquare tb (fst m) (snd m) s
       \<and> \<not> cutoff tb ts s d beta pre alpha
       \<and> fst (loop tb ts s d beta pre alpha moveMade) < a
       \<and> childScore tb ts s d beta (fst (loop tb ts s d beta pre alpha moveMade)) m = a
       \<and> loop tb ts s d beta post a (Some m) = (a, Some m))"
  using assms
proof (induction sqs arbitrary: alpha moveMade)
  case Nil
  then show ?case by simp
next
  case (Cons m0 ms)
  let ?s = "childScore tb ts s d beta alpha m0"
  let ?P = "\<lambda>al mv pre m post. ms = pre @ m # post \<and> best = Some m \<and> checkSquare tb (fst m) (snd m) s
       \<and> \<not> cutoff tb ts s d beta pre al
       \<and> fst (loop tb ts s d beta pre al mv) < a
       \<and> childScore tb ts s d beta (fst (loop tb ts s d beta pre al mv)) m = a
       \<and> loop tb ts s d beta post a (Some m) = (a, Some m)"
  \<comment> \<open>the state with which the loop goes on after \<open>m0\<close>\<close>
  define al' where "al' = (if checkSquare tb (fst m0) (snd m0) s \<and> alpha < ?s then ?s else alpha)"
  define mv' where "mv' = (if checkSquare tb (fst m0) (snd m0) s \<and> alpha < ?s then Some m0 else moveMade)"
  from Cons.prems(1) have nb: "checkSquare tb (fst m0) (snd m0) s \<Longrightarrow> ?s \<le> beta"
    by (auto split: if_splits)
  have step: "loop tb ts s d beta (m0 # pre) alpha moveMade = loop tb ts s d beta pre al' mv'" for pre
    using nb by (auto simp: loop_Cons visit_def al'_def mv'_def)
  have cstep: "cutoff tb ts s d beta (m0 # pre) alpha = cutoff tb ts s d beta pre al'" for pre
    using nb by (auto simp: al'_def max_def)
  from Cons.prems cstep [of ms] step [of ms]
  have nc: "\<not> cutoff tb ts s d beta ms al'" and l: "loop tb ts s d beta ms al' mv' = (a, best)"
    by simp_all
  from Cons.IH [OF nc l] show ?case
  proof
    assume e: "a = al' \<and> best = mv'"
    show ?thesis
    proof (cases "checkSquare tb (fst m0) (snd m0) s \<and> alpha < ?s")
      case False
      with e show ?thesis by (simp add: al'_def mv'_def)
    next
      case True
      with e have a: "a = ?s" and b: "best = Some m0" by (simp_all add: al'_def mv'_def)
      have "m0 # ms = [] @ m0 # ms" by simp
      moreover have "\<not> cutoff tb ts s d beta [] alpha" by simp
      moreover have "fst (loop tb ts s d beta [] alpha moveMade) < a" using a True by simp
      moreover have "childScore tb ts s d beta (fst (loop tb ts s d beta [] alpha moveMade)) m0 = a"
        using a by simp
      moreover have "loop tb ts s d beta ms a (Some m0) = (a, Some m0)"
        using l e True by (simp add: al'_def mv'_def)
      ultimately show ?thesis using b True by blast
    qed
  next
    assume "\<exists>pre m post. ?P al' mv' pre m post"
    then obtain pre m post where d: "ms = pre @ m # post" "best = Some m"
      "checkSquare tb (fst m) (snd m) s"
      "\<not> cutoff tb ts s d beta pre al'"
      "fst (loop tb ts s d beta pre al' mv') < a"
      "childScore tb ts s d beta (fst (loop tb ts s d beta pre al' mv')) m = a"
      "loop tb ts s d beta post a (Some m) = (a, Some m)" by blast
    have "m0 # ms = (m0 # pre) @ m # post" using d(1) by simp
    moreover have "\<not> cutoff tb ts s d beta (m0 # pre) alpha" using d(4) cstep by simp
    moreover have "fst (loop tb ts s d beta (m0 # pre) alpha moveMade) < a"
      using d(5) step by simp
    moreover have "childScore tb ts s d beta (fst (loop tb ts s d beta (m0 # pre) alpha moveMade)) m = a"
      using d(6) step by simp
    ultimately show ?thesis using d(2,3,7) by blast
  qed
qed

lemma squares_eq:
  "squares =
    [(0, 0), (0, 1), (0, 2), (0, 3), (0, 4), (0, 5), (0, 6), (0, 7),
     (1, 0), (1, 1), (1, 2), (1, 3), (1, 4), (1, 5), (1, 6), (1, 7),
     (2, 0), (2, 1), (2, 2), (2, 3), (2, 4), (2, 5), (2, 6), (2, 7),
     (3, 0), (3, 1), (3, 2), (3, 3), (3, 4), (3, 5), (3, 6), (3, 7),
     (4, 0), (4, 1), (4, 2), (4, 3), (4, 4), (4, 5), (4, 6), (4, 7),
     (5, 0), (5, 1), (5, 2), (5, 3), (5, 4), (5, 5), (5, 6), (5, 7),
     (6, 0), (6, 1), (6, 2), (6, 3), (6, 4), (6, 5), (6, 6), (6, 7),
     (7, 0), (7, 1), (7, 2), (7, 3), (7, 4), (7, 5), (7, 6), (7, 7)]"
  by code_simp

lemma squares_nth: "onBoard x y \<Longrightarrow> squares ! nat (8 * x + y) = (x, y)"
proof -
  assume "onBoard x y"
  then have "x \<in> {0, 1, 2, 3, 4, 5, 6, 7}" and "y \<in> {0, 1, 2, 3, 4, 5, 6, 7}"
    by (auto simp: onBoard_def)
  then show ?thesis
    unfolding squares_eq by (elim insertE emptyE) simp_all
qed

lemma loop_move:
  "snd (loop tb ts s d beta ms alpha moveMade) = Some m \<Longrightarrow> m \<in> set ms \<or> moveMade = Some m"
proof (induction ms arbitrary: alpha moveMade)
  case Nil
  then show ?case by simp
next
  case (Cons m0 ms)
  show ?case
  proof (cases "checkSquare tb (fst m0) (snd m0) s")
    case False
    with Cons.prems have "snd (loop tb ts s d beta ms alpha moveMade) = Some m"
      by (simp add: loop_Cons)
    from Cons.IH [OF this] show ?thesis by auto
  next
    case True
    show ?thesis
    proof (cases "visit beta alpha moveMade m0 (childScore tb ts s d beta alpha m0)")
      case (Inl r)
      with True Cons.prems show ?thesis
        by (auto simp: loop_Cons visit_def split: if_splits)
    next
      case (Inr st)
      obtain alpha' moveMade' where st: "st = (alpha', moveMade')" by (cases st)
      with Inr have mv: "moveMade' = Some m0 \<or> moveMade' = moveMade"
        by (auto simp: visit_def split: if_splits)
      from True Inr st Cons.prems have "snd (loop tb ts s d beta ms alpha' moveMade') = Some m"
        by (simp add: loop_Cons)
      from Cons.IH [OF this] mv show ?thesis by auto
    qed
  qed
qed

lemma squares_onBoard: "\<forall>m \<in> set squares. onBoard (fst m) (snd m)"
  by (auto simp: squares_def onBoard_def)

lemma negamax_move_onBoard:
  "snd (negamax tb ts b s d alpha beta) = Some m \<Longrightarrow> onBoard (fst m) (snd m)"
proof (cases d)
  case 0
  then show "snd (negamax tb ts b s d alpha beta) = Some m \<Longrightarrow> ?thesis" by simp
next
  case (Suc d')
  assume "snd (negamax tb ts b s d alpha beta) = Some m"
  with Suc have "snd (loop tb ts s d' beta squares alpha None) = Some m"
    by (simp split: if_splits)
  from loop_move [OF this] squares_onBoard show ?thesis by auto
qed

lemma negamax_board_argument_only_tested:
  "hasMoves b s \<Longrightarrow> hasMoves b' s \<Longrightarrow>
   negamax tb ts b s (Suc d) alpha beta = negamax tb ts b' s (Suc d) alpha beta"
  by simp

lemma childScore_depth_0:
  "childScore tb ts s 0 beta alpha m = neg32 (getScore (doMoveSquare (copy tb) (fst m) (snd m) s) ts True)"
  by (simp add: childScore_def)

lemma neg32_3: "neg32 3 = - 3"
  by (simp add: neg32_def INT_MIN_def)

text \<open>The opening, BLACK to move: two of the four legal moves and the scores of the boards
  they lead to.\<close>

lemma opening_legal_23: "checkSquare newBoard 2 3 BLACK"
  by code_simp

lemma opening_legal_32: "checkSquare newBoard 3 2 BLACK"
  by code_simp

lemma opening_child_23: "getScore (doMoveSquare (copy newBoard) 2 3 BLACK) BLACK True = 3"
  by code_simp

lemma opening_child_32: "getScore (doMoveSquare (copy newBoard) 3 2 BLACK) BLACK True = 3"
  by code_simp

lemma opening_childScore_23: "childScore newBoard BLACK BLACK 0 beta alpha (2, 3) = - 3"
  by (simp add: childScore_depth_0 opening_child_23 neg32_3)

lemma opening_childScore_32: "childScore newBoard BLACK BLACK 0 beta alpha (3, 2) = - 3"
  by (simp add: childScore_depth_0 opening_child_32 neg32_3)

text \<open>Claim C1, evaluated on the code. The agent's own board is the opening and the agent
  plays BLACK. \<^verbatim>\<open>negamax\<close> is called on a child board of the kind its own recursion
  passes, the board reached from the opening by BLACK's move \<open>(5, 4)\<close>, with WHITE to
  move and depth 1. On that board WHITE has legal moves, and \<open>(2, 4)\<close> is not one of
  them; the search returns \<open>(2, 4)\<close>, a placement that is legal for WHITE on the agent's
  own board: the loop tests and copies \<^verbatim>\<open>this->board\<close>, not its argument
  \<^verbatim>\<open>board\<close>.\<close>

theorem negamax_scans_this_board:
  "hasMoves (doMoveSquare newBoard 5 4 BLACK) WHITE
   \<and> negamax newBoard BLACK (doMoveSquare newBoard 5 4 BLACK) WHITE 1 (INT_MIN + 1) INT_MAX
       = (3, Some (2, 4))
   \<and> \<not> checkSquare (doMoveSquare newBoard 5 4 BLACK) 2 4 WHITE
   \<and> checkSquare newBoard 2 4 WHITE"
  by code_simp

text \<open>Claim C2, evaluated on the code. On a board with a single black piece in the corner
  \<open>(0, 0)\<close> and the agent playing BLACK, the search returns the score 1 with no move, at
  depth 0 and (BLACK has no legal move) at depth 7: this is the piece difference of the
  simple mode (\<^verbatim>\<open>getScore(this->side, true)\<close>). The positional evaluation of that
  board is 3.\<close>

theorem negamax_base_case_simple_score:
  "negamax newBoard BLACK \<lparr> taken = 1, black = 1 \<rparr> BLACK 0 (INT_MIN + 1) INT_MAX = (1, None)
   \<and> negamax newBoard BLACK \<lparr> taken = 1, black = 1 \<rparr> BLACK 7 (INT_MIN + 1) INT_MAX = (1, None)
   \<and> getScore \<lparr> taken = 1, black = 1 \<rparr> BLACK True = 1
   \<and> getScore \<lparr> taken = 1, black = 1 \<rparr> BLACK False = 3"
  by code_simp

text \<open>Claim C5, as amended. In the loop of the search, at every iteration (any remaining
  squares \<open>m # ms\<close>, any running \<open>alpha\<close> and recorded move): if the move \<open>m\<close> is
  legal and its negated child score is greater than \<open>beta\<close>, the loop returns
  \<open>(beta, m)\<close> whatever the remaining squares are; if its score is neither greater than
  the running \<open>alpha\<close> nor than \<open>beta\<close>, the loop goes on with \<open>alpha\<close> and the
  recorded move unchanged. Hence, in a scan without cutoff, the move returned is the first
  square of the scan at which the running \<open>alpha\<close> reaches its final value, and no later
  square replaces it. The scan visits the squares in the order of the loops, the square
  \<open>(x, y)\<close> at position \<open>8 * x + y\<close>: all \<open>y\<close> for \<open>x = 0\<close>, then all \<open>y\<close> for
  \<open>x = 1\<close>, and so on.\<close>

theorem loop_cutoff_and_ties:
  "(checkSquare tb (fst m) (snd m) s \<and> beta < childScore tb ts s d beta alpha m
      \<longrightarrow> loop tb ts s d beta (m # ms) alpha moveMade = (beta, Some m))
   \<and> (checkSquare tb (fst m) (snd m) s \<and> childScore tb ts s d beta alpha m \<le> alpha
        \<and> childScore tb ts s d beta alpha m \<le> beta
      \<longrightarrow> loop tb ts s d beta (m # ms) alpha moveMade = loop tb ts s d beta ms alpha moveMade)
   \<and> (\<not> cutoff tb ts s d beta sqs alpha \<and> loop tb ts s d beta sqs alpha moveMade = (a, best)
      \<longrightarrow> (a = alpha \<and> best = moveMade) \<or>
          (\<exists>pre m' post. sqs = pre @ m' # post \<and> best = Some m'
             \<and> checkSquare tb (fst m') (snd m') s
             \<and> \<not> cutoff tb ts s d beta pre alpha
             \<and> fst (loop tb ts s d beta pre alpha moveMade) < a
             \<and> childScore tb ts s d beta (fst (loop tb ts s d beta pre alpha moveMade)) m' = a
             \<and> loop tb ts s d beta post a (Some m') = (a, Some m')))
   \<and> (hasMoves b s \<longrightarrow> negamax tb ts b s (Suc d) alpha beta = loop tb ts s d beta squares alpha None)
   \<and> (onBoard x y \<longrightarrow> squares ! nat (8 * x + y) = (x, y))"
  using loop_cutoff_step [of tb m s beta ts d alpha ms moveMade]
    loop_tie_step [of tb m s ts d beta alpha ms moveMade]
    loop_first_wins [of tb ts s d beta sqs alpha moveMade a best]
    squares_nth [of x y]
  by simp

theorem loop_cutoff_and_ties_witness:
  "loop newBoard BLACK BLACK 0 (- 10) [(2, 3)] (- 20) None = (- 10, Some (2, 3))
   \<and> loop newBoard BLACK BLACK 0 INT_MAX [(3, 2)] (- 3) (Some (2, 3))
       = loop newBoard BLACK BLACK 0 INT_MAX [] (- 3) (Some (2, 3))
   \<and> \<not> cutoff newBoard BLACK BLACK 0 INT_MAX [(2, 3), (3, 2)] (INT_MIN + 1)
   \<and> loop newBoard BLACK BLACK 0 INT_MAX [(2, 3), (3, 2)] (INT_MIN + 1) None = (- 3, Some (2, 3))
   \<and> (\<exists>pre m' post. [(2, 3), (3, 2)] = pre @ m' # post \<and> Some (2, 3) = Some m'
         \<and> checkSquare newBoard (fst m') (snd m') BLACK
         \<and> \<not> cutoff newBoard BLACK BLACK 0 INT_MAX pre (INT_MIN + 1)
         \<and> fst (loop newBoard BLACK BLACK 0 INT_MAX pre (INT_MIN + 1) None) < - 3
         \<and> childScore newBoard BLACK BLACK 0 INT_MAX
              (fst (loop newBoard BLACK BLACK 0 INT_MAX pre (INT_MIN + 1) None)) m' = - 3
         \<and> loop newBoard BLACK BLACK 0 INT_MAX post (- 3) (Some m') = (- 3, Some m'))
   \<and> squares ! nat (8 * 2 + 3) = (2, 3)"
proof -
  note cs = opening_childScore_23 opening_childScore_32
  note lg = opening_legal_23 opening_legal_32
  have nc: "\<not> cutoff newBoard BLACK BLACK 0 INT_MAX [(2, 3), (3, 2)] (INT_MIN + 1)"
    by (simp add: cs lg INT_MAX_def INT_MIN_def)
  have l: "loop newBoard BLACK BLACK 0 INT_MAX [(2, 3), (3, 2)] (INT_MIN + 1) None = (- 3, Some (2, 3))"
    by (simp add: loop_Cons cs lg visit_def INT_MAX_def INT_MIN_def)
  have ob: "onBoard 2 3" by (simp add: onBoard_def)
  from loop_cutoff_and_ties
    [where tb = newBoard and ts = BLACK and s = BLACK and d = 0 and m = "(2, 3)"
       and beta = "- 10" and alpha = "- 20" and ms = "[]" and moveMade = None]
  have 1: "loop newBoard BLACK BLACK 0 (- 10) [(2, 3)] (- 20) None = (- 10, Some (2, 3))"
    by (simp add: cs lg)
  from loop_cutoff_and_ties
    [where tb = newBoard and ts = BLACK and s = BLACK and d = 0 and m = "(3, 2)"
       and beta = INT_MAX and alpha = "- 3" and ms = "[]" and moveMade = "Some (2, 3)"]
  have 2: "loop newBoard BLACK BLACK 0 INT_MAX [(3, 2)] (- 3) (Some (2, 3))
       = loop newBoard BLACK BLACK 0 INT_MAX [] (- 3) (Some (2, 3))"
    by (simp add: cs lg INT_MAX_def)
  from loop_cutoff_and_ties
    [where tb = newBoard and ts = BLACK and s = BLACK and d = 0 and beta = INT_MAX
       and alpha = "INT_MIN + 1" and sqs = "[(2, 3), (3, 2)]" and moveMade = None
       and a = "- 3" and best = "Some (2, 3)" and x = 2 and y = 3] nc l ob
  have 3: "(\<exists>pre m' post. [(2, 3), (3, 2)] = pre @ m' # post \<and> Some (2, 3) = Some m'
         \<and> checkSquare newBoard (fst m') (snd m') BLACK
         \<and> \<not> cutoff newBoard BLACK BLACK 0 INT_MAX pre (INT_MIN + 1)
         \<and> fst (loop newBoard BLACK BLACK 0 INT_MAX pre (INT_MIN + 1) None) < - 3
         \<and> childScore newBoard BLACK BLACK 0 INT_MAX
              (fst (loop newBoard BLACK BLACK 0 INT_MAX pre (INT_MIN + 1) None)) m' = - 3
         \<and> loop newBoard BLACK BLACK 0 INT_MAX post (- 3) (Some m') = (- 3, Some m'))"
    and 4: "squares ! nat (8 * 2 + 3) = (2, 3)"
    by (simp_all add: INT_MIN_def)
  from 1 2 nc l 3 4 show ?thesis by blast
qed

text \<open>The claim as stated, with ties going to the first move in row-major order (the order
  of the index \<open>x + 8 * y\<close>), fails at the opening with BLACK to move and depth 1: the
  moves \<open>(3, 2)\<close> and \<open>(2, 3)\<close> are both legal with the same score, \<open>(3, 2)\<close> has the
  smaller index, and the search returns \<open>(2, 3)\<close>.\<close>

theorem tie_break_row_major_counterexample:
  "negamax newBoard BLACK newBoard BLACK 1 (INT_MIN + 1) INT_MAX = (- 3, Some (2, 3))
   \<and> checkSquare newBoard 3 2 BLACK
   \<and> childScore newBoard BLACK BLACK 0 INT_MAX (INT_MIN + 1) (2, 3) = - 3
   \<and> childScore newBoard BLACK BLACK 0 INT_MAX (- 3) (3, 2) = - 3
   \<and> (3 :: int) + 8 * 2 < 2 + 8 * 3"
proof -
  have "negamax newBoard BLACK newBoard BLACK 1 (INT_MIN + 1) INT_MAX = (- 3, Some (2, 3))"
    by code_simp
  then show ?thesis
    by (simp add: opening_legal_32 opening_childScore_23 opening_childScore_32)
qed

section \<open>Boards behind pointers\<close>

lemma deref_Inr: "deref h p = Inr b \<longleftrightarrow> p < length h \<and> h ! p = Some b"
  by (auto simp: deref_def split: option.splits)

lemma copy_h_eq: "deref h p = Inr b \<Longrightarrow> copy_h h p = Inr (h @ [Some (copy b)], length h)"
  by (simp add: copy_h_def new_Board_def copy_def)

lemma copy_h_Inr:
  "copy_h h p = Inr (h1, q) \<Longrightarrow> \<exists>b. deref h p = Inr b \<and> h1 = h @ [Some (copy b)] \<and> q = length h"
  by (cases "deref h p") (auto simp: copy_h_def new_Board_def copy_def)

lemma mutate_h_Inr:
  "mutate_h h p mu = Inr h' \<Longrightarrow> \<exists>b b'. deref h p = Inr b \<and> mutate b mu = Inr b' \<and> h' = h[p := Some b']"
  by (auto simp: mutate_h_def split: sum.splits)

lemma mutate_all_h_frame:
  "p \<noteq> q \<Longrightarrow> fst (mutate_all_h h q mus) ! p = h ! p \<and> length (fst (mutate_all_h h q mus)) = length h"
proof (induction mus arbitrary: h)
  case Nil
  show ?case by simp
next
  case (Cons mu mus)
  show ?case
  proof (cases "mutate_h h q mu")
    case (Inl e)
    then show ?thesis by simp
  next
    case (Inr h')
    from mutate_h_Inr [OF Inr] obtain b' where h': "h' = h[q := Some b']" by blast
    from Cons.IH [OF Cons.prems, of h'] Inr h' Cons.prems show ?thesis by simp
  qed
qed

text \<open>Claim C7. \<^verbatim>\<open>copy()\<close> returns a new object with the same two bitsets, at an
  address different from the original's; after any sequence of mutations through the
  pointer to the copy (\<^verbatim>\<open>doMove\<close> with any move and side, \<^verbatim>\<open>set\<close>,
  \<^verbatim>\<open>setBoard\<close>, up to the first one that fails), the original is the same board value
  as before, so both its bitsets and its counts for both sides are unchanged.\<close>

theorem copy_then_mutate_frame:
  assumes "copy_h h p = Inr (h1, q)"
  shows "\<exists>B. deref h p = Inr B \<and> q \<noteq> p
     \<and> deref h1 q = Inr (copy B) \<and> taken (copy B) = taken B \<and> black (copy B) = black B
     \<and> deref (fst (mutate_all_h h1 q mus)) p = Inr B"
proof -
  from copy_h_Inr [OF assms] obtain B where B: "deref h p = Inr B"
    and h1: "h1 = h @ [Some (copy B)]" and q: "q = length h" by blast
  from B have p: "p < length h" "h ! p = Some B" by (simp_all add: deref_Inr)
  with q have ne: "p \<noteq> q" by simp
  from mutate_all_h_frame [OF ne, of h1 mus] p h1
  have "deref (fst (mutate_all_h h1 q mus)) p = Inr B"
    by (simp add: deref_Inr nth_append)
  moreover have "deref h1 q = Inr (copy B)" using h1 q by (simp add: deref_Inr)
  ultimately show ?thesis using B ne by (auto simp: copy_def)
qed

theorem copy_then_mutate_frame_witness:
  "copy_h [Some newBoard] 0 = Inr ([Some newBoard, Some (copy newBoard)], 1)
   \<and> (\<exists>B. deref [Some newBoard] 0 = Inr B \<and> (1 :: nat) \<noteq> 0
     \<and> deref [Some newBoard, Some (copy newBoard)] 1 = Inr (copy B)
     \<and> taken (copy B) = taken B \<and> black (copy B) = black B
     \<and> deref (fst (mutate_all_h [Some newBoard, Some (copy newBoard)] 1
                     [DoMove (Some (2, 3)) BLACK, Set WHITE 0 0, DoMove None WHITE])) 0 = Inr B)"
proof -
  have c: "copy_h [Some newBoard] 0 = Inr ([Some newBoard, Some (copy newBoard)], 1)"
    by (simp add: copy_h_eq deref_def)
  from copy_then_mutate_frame
    [OF c, where mus = "[DoMove (Some (2, 3)) BLACK, Set WHITE 0 0, DoMove None WHITE]"] c
  show ?thesis by blast
qed

subsection \<open>The search on the store\<close>

lemma checkMove_onBoard:
  "onBoard (fst m) (snd m) \<Longrightarrow> checkMove b (Some m) s = Inr (checkSquare b (fst m) (snd m) s)"
  by (cases m) (simp add: checkMove_def onBoard_inRange)

lemma doMove_onBoard:
  "onBoard (fst m) (snd m) \<Longrightarrow> doMove b (Some m) s = Inr (doMoveSquare b (fst m) (snd m) s)"
  by (cases m) (simp add: doMove_def checkMove_def doMoveSquare_def onBoard_inRange)

lemma loop_h_returns:
  assumes rec: "\<And>h bp b s' alpha beta. deref h (board pl) = Inr tb \<Longrightarrow> deref h bp = Inr b \<Longrightarrow>
      returns h (negamax_h pl h bp s' d alpha beta) (negamax tb (side pl) b s' d alpha beta)"
    and "deref h (board pl) = Inr tb"
    and "\<forall>m \<in> set ms. onBoard (fst m) (snd m)"
  shows "returns h (loop_h pl s d beta ms h alpha moveMade) (loop tb (side pl) s d beta ms alpha moveMade)"
  using assms(2,3)
proof (induction ms arbitrary: h alpha moveMade)
  case Nil
  show ?case by (simp add: returns_def)
next
  case (Cons m ms)
  from Cons.prems have tb: "deref h (board pl) = Inr tb" and on: "onBoard (fst m) (snd m)"
    and rest: "\<forall>m \<in> set ms. onBoard (fst m) (snd m)" by simp_all
  from tb have bp: "board pl < length h" "h ! board pl = Some tb" by (simp_all add: deref_Inr)
  obtain i j where m: "m = (i, j)" by (cases m)
  show ?case
  proof (cases "checkSquare tb i j s")
    case False
    with Cons.IH [OF tb rest] tb on m show ?thesis
      by (simp add: checkMove_onBoard)
  next
    case True
    let ?child = "doMoveSquare (copy tb) i j s"
    let ?opp = "if s = WHITE then BLACK else WHITE"
    let ?h2 = "h @ [Some ?child]"
    have c: "copy_h h (board pl) = Inr (h @ [Some (copy tb)], length h)"
      using tb by (rule copy_h_eq)
    have mu: "mutate_h (h @ [Some (copy tb)]) (length h) (DoMove (Some m) s) = Inr ?h2"
      using on m by (simp add: mutate_h_def deref_def mutate_def doMove_onBoard)
    have tb2: "deref ?h2 (board pl) = Inr tb" using bp by (simp add: deref_Inr nth_append)
    have ch2: "deref ?h2 (length h) = Inr ?child" by (simp add: deref_Inr)
    from rec [OF tb2 ch2, of ?opp "neg32 beta" "neg32 alpha"]
    obtain h3 where h3: "negamax_h pl ?h2 (length h) ?opp d (neg32 beta) (neg32 alpha)
        = Inr (h3, negamax tb (side pl) ?child ?opp d (neg32 beta) (neg32 alpha))"
      and len3: "length ?h2 \<le> length h3" and fr3: "\<forall>p < length ?h2. h3 ! p = ?h2 ! p"
      by (auto simp: returns_def)
    from fr3 have fr3': "\<forall>p < length h. h3 ! p = h ! p" by (simp add: nth_append)
    let ?sc = "neg32 (fst (negamax tb (side pl) ?child ?opp d (neg32 beta) (neg32 alpha)))"
    have unfold_h: "loop_h pl s d beta (m # ms) h alpha moveMade =
        (case visit beta alpha moveMade m ?sc of
           Inl result \<Rightarrow> Inr (h3, result)
         | Inr (alpha', moveMade') \<Rightarrow>
             loop_h pl s d beta ms (delete_Board h3 (length h)) alpha' moveMade')"
      using tb on True m c mu h3 by (simp add: checkMove_onBoard)
    have unfold_p: "loop tb (side pl) s d beta (m # ms) alpha moveMade =
        (case visit beta alpha moveMade m ?sc of
           Inl result \<Rightarrow> result
         | Inr (alpha', moveMade') \<Rightarrow> loop tb (side pl) s d beta ms alpha' moveMade')"
      using True m by simp
    show ?thesis
    proof (cases "visit beta alpha moveMade m ?sc")
      case (Inl result)
      with unfold_h unfold_p len3 fr3' show ?thesis by (simp add: returns_def)
    next
      case (Inr st)
      obtain alpha' moveMade' where st: "st = (alpha', moveMade')" by (cases st)
      let ?h4 = "delete_Board h3 (length h)"
      have len4: "length h \<le> length ?h4" using len3 by (simp add: delete_Board_def)
      have fr4: "\<forall>p < length h. ?h4 ! p = h ! p" using fr3' by (simp add: delete_Board_def)
      with bp len4 have tb4: "deref ?h4 (board pl) = Inr tb" by (simp add: deref_Inr)
      from Cons.IH [OF tb4 rest, of alpha' moveMade']
      obtain h' where h': "loop_h pl s d beta ms ?h4 alpha' moveMade'
          = Inr (h', loop tb (side pl) s d beta ms alpha' moveMade')"
        and len': "length ?h4 \<le> length h'" and fr': "\<forall>p < length ?h4. h' ! p = ?h4 ! p"
        by (auto simp: returns_def)
      from len4 len' have "length h \<le> length h'" by simp
      moreover from fr' fr4 len4 have "\<forall>p < length h. h' ! p = h ! p" by simp
      ultimately show ?thesis using unfold_h unfold_p Inr st h' by (simp add: returns_def)
    qed
  qed
qed

lemma negamax_h_returns:
  "deref h (board pl) = Inr tb \<Longrightarrow> deref h bp = Inr b \<Longrightarrow>
   returns h (negamax_h pl h bp s d alpha beta) (negamax tb (side pl) b s d alpha beta)"
proof (induction d arbitrary: h bp b s alpha beta)
  case 0
  then show ?case by (simp add: returns_def)
next
  case (Suc d)
  show ?case
  proof (cases "hasMoves b s")
    case False
    with Suc.prems show ?thesis by (simp add: returns_def)
  next
    case True
    from loop_h_returns [of pl tb d h squares s beta alpha None, OF Suc.IH Suc.prems(1) squares_onBoard]
    have "returns h (loop_h pl s d beta squares h alpha None)
        (loop tb (side pl) s d beta squares alpha None)" by simp
    with True Suc.prems show ?thesis by simp
  qed
qed

lemma doMove_of_search_move:
  "\<exists>b'. doMove b (snd (negamax tb ts b0 s d alpha beta)) s' = Inr b'"
proof (cases "snd (negamax tb ts b0 s d alpha beta)")
  case None
  then show ?thesis by (simp add: doMove_def)
next
  case (Some m)
  from negamax_move_onBoard [OF Some] have "onBoard (fst m) (snd m)" .
  with Some show ?thesis by (simp add: doMove_onBoard)
qed

lemma mutate_h_DoMove:
  "deref h p = Inr b \<Longrightarrow> doMove b m s = Inr b' \<Longrightarrow>
   (if m \<noteq> None then mutate_h h p (DoMove m s) else Inr h) = Inr (h[p := Some b'])"
proof (cases m)
  case None
  assume "deref h p = Inr b" and "doMove b m s = Inr b'"
  with None have "b' = b" and "h ! p = Some b" by (simp_all add: doMove_def deref_Inr)
  then have "h[p := Some b'] = h" by (metis list_update_id)
  with None show ?thesis by simp
next
  case (Some mv)
  assume "deref h p = Inr b" and "doMove b m s = Inr b'"
  with Some show ?thesis by (simp add: mutate_h_def mutate_def)
qed

lemma Player_doMove_two_mutations:
  assumes b0: "deref h (board pl) = Inr b0"
    and b1: "doMove b0 opponentsMove (if side pl = BLACK then WHITE else BLACK) = Inr b1"
  shows "\<exists>h' b2.
      Player_doMove pl h opponentsMove msLeft
        = Inr (h', snd (negamax b1 (side pl) b1 (side pl) 7 (INT_MIN + 1) INT_MAX))
    \<and> doMove b1 (snd (negamax b1 (side pl) b1 (side pl) 7 (INT_MIN + 1) INT_MAX)) (side pl) = Inr b2
    \<and> deref h' (board pl) = Inr b2
    \<and> length h \<le> length h'
    \<and> (\<forall>p < length h. p \<noteq> board pl \<longrightarrow> h' ! p = h ! p)"
proof -
  let ?p = "board pl"
  let ?h1 = "h[?p := Some b1]"
  let ?r = "negamax b1 (side pl) b1 (side pl) 7 (INT_MIN + 1) INT_MAX"
  from b0 have p: "?p < length h" by (simp add: deref_Inr)
  have m1: "(if opponentsMove \<noteq> None
      then mutate_h h ?p (DoMove opponentsMove (if side pl = BLACK then WHITE else BLACK))
      else Inr h) = Inr ?h1"
    using b0 b1 by (rule mutate_h_DoMove)
  from p have d1: "deref ?h1 ?p = Inr b1" by (simp add: deref_Inr)
  from negamax_h_returns [OF d1 d1, of "side pl" 7 "INT_MIN + 1" INT_MAX]
  obtain h2 where h2: "negamax_h pl ?h1 ?p (side pl) 7 (INT_MIN + 1) INT_MAX = Inr (h2, ?r)"
    and len2: "length ?h1 \<le> length h2" and fr2: "\<forall>q < length ?h1. h2 ! q = ?h1 ! q"
    by (auto simp: returns_def)
  from fr2 p len2 have d2: "deref h2 ?p = Inr b1" by (simp add: deref_Inr)
  from doMove_of_search_move [of b1 b1 "side pl" b1 "side pl" 7 "INT_MIN + 1" INT_MAX "side pl"]
  obtain b2 where b2: "doMove b1 (snd ?r) (side pl) = Inr b2" by blast
  have m2: "(if snd ?r \<noteq> None then mutate_h h2 ?p (DoMove (snd ?r) (side pl)) else Inr h2)
      = Inr (h2[?p := Some b2])"
    using d2 b2 by (rule mutate_h_DoMove)
  have "Player_doMove pl h opponentsMove msLeft = Inr (h2[?p := Some b2], snd ?r)"
    by (simp only: Player_doMove_def m1 sum.case h2 prod.case Let_def m2)
  moreover have "deref (h2[?p := Some b2]) ?p = Inr b2"
    using p len2 by (simp add: deref_Inr)
  moreover have "length h \<le> length (h2[?p := Some b2])" using len2 by simp
  moreover have "\<forall>q < length h. q \<noteq> ?p \<longrightarrow> (h2[?p := Some b2]) ! q = h ! q"
    using fr2 by simp
  ultimately show ?thesis using b2 by blast
qed

text \<open>Claim C8. A call of \<^verbatim>\<open>negamax\<close> on the store, for any board argument, side,
  depth and window, returns normally with the result of the search on board values, and
  every board object that existed before the call, the board passed as argument and the
  agent's own board among them, has the same value afterwards: the call only allocates
  child boards and deletes them. A turn of the agent (\<^verbatim>\<open>Player::doMove\<close>) changes the
  agent's board by \<^verbatim>\<open>doMove\<close> of the opponent's move followed by \<^verbatim>\<open>doMove\<close> of the
  move the search returned, and no other object that existed before.\<close>

theorem search_leaves_boards_unchanged:
  "(deref h (board pl) = Inr tb \<and> deref h bp = Inr b
      \<longrightarrow> (\<exists>h'. negamax_h pl h bp s d alpha beta = Inr (h', negamax tb (side pl) b s d alpha beta)
             \<and> length h \<le> length h' \<and> (\<forall>p < length h. h' ! p = h ! p)
             \<and> deref h' bp = Inr b \<and> deref h' (board pl) = Inr tb))
   \<and> (deref h0 (board pl) = Inr b0
        \<and> doMove b0 opponentsMove (if side pl = BLACK then WHITE else BLACK) = Inr b1
      \<longrightarrow> (\<exists>h' b2.
             Player_doMove pl h0 opponentsMove msLeft
               = Inr (h', snd (negamax b1 (side pl) b1 (side pl) 7 (INT_MIN + 1) INT_MAX))
           \<and> doMove b1 (snd (negamax b1 (side pl) b1 (side pl) 7 (INT_MIN + 1) INT_MAX)) (side pl)
               = Inr b2
           \<and> deref h' (board pl) = Inr b2
           \<and> length h0 \<le> length h'
           \<and> (\<forall>p < length h0. p \<noteq> board pl \<longrightarrow> h' ! p = h0 ! p)))"
proof (intro conjI impI)
  assume a: "deref h (board pl) = Inr tb \<and> deref h bp = Inr b"
  then have tb: "deref h (board pl) = Inr tb" and b: "deref h bp = Inr b" by simp_all
  from negamax_h_returns [OF tb b, of s d alpha beta]
  obtain h' where h': "negamax_h pl h bp s d alpha beta = Inr (h', negamax tb (side pl) b s d alpha beta)"
    and len: "length h \<le> length h'" and fr: "\<forall>p < length h. h' ! p = h ! p"
    by (auto simp: returns_def)
  from tb b fr len have "deref h' bp = Inr b" and "deref h' (board pl) = Inr tb"
    by (simp_all add: deref_Inr)
  with h' len fr
  show "\<exists>h'. negamax_h pl h bp s d alpha beta = Inr (h', negamax tb (side pl) b s d alpha beta)
             \<and> length h \<le> length h' \<and> (\<forall>p < length h. h' ! p = h ! p)
             \<and> deref h' bp = Inr b \<and> deref h' (board pl) = Inr tb" by blast
next
  assume "deref h0 (board pl) = Inr b0
        \<and> doMove b0 opponentsMove (if side pl = BLACK then WHITE else BLACK) = Inr b1"
  then show "\<exists>h' b2.
             Player_doMove pl h0 opponentsMove msLeft
               = Inr (h', snd (negamax b1 (side pl) b1 (side pl) 7 (INT_MIN + 1) INT_MAX))
           \<and> doMove b1 (snd (negamax b1 (side pl) b1 (side pl) 7 (INT_MIN + 1) INT_MAX)) (side pl)
               = Inr b2
           \<and> deref h' (board pl) = Inr b2
           \<and> length h0 \<le> length h'
           \<and> (\<forall>p < length h0. p \<noteq> board pl \<longrightarrow> h' ! p = h0 ! p)"
    using Player_doMove_two_mutations [of h0 pl b0 opponentsMove b1 msLeft] by blast
qed

theorem search_leaves_boards_unchanged_witness:
  "deref [Some newBoard, Some (place newBoard 2 3 BLACK)] 0 = Inr newBoard
   \<and> deref [Some newBoard, Some (place newBoard 2 3 BLACK)] 1 = Inr (place newBoard 2 3 BLACK)
   \<and> (\<exists>h'. negamax_h \<lparr> board = 0, side = BLACK, testingMinimax = False \<rparr>
              [Some newBoard, Some (place newBoard 2 3 BLACK)] 1 WHITE 6 (- INT_MAX) INT_MAX
            = Inr (h', negamax newBoard BLACK (place newBoard 2 3 BLACK) WHITE 6 (- INT_MAX) INT_MAX)
         \<and> length [Some newBoard, Some (place newBoard 2 3 BLACK)] \<le> length h'
         \<and> (\<forall>p < length [Some newBoard, Some (place newBoard 2 3 BLACK)].
               h' ! p = [Some newBoard, Some (place newBoard 2 3 BLACK)] ! p)
         \<and> deref h' 1 = Inr (place newBoard 2 3 BLACK) \<and> deref h' 0 = Inr newBoard)
   \<and> doMove newBoard None WHITE = Inr newBoard
   \<and> (\<exists>h' b2.
         Player_doMove \<lparr> board = 0, side = BLACK, testingMinimax = False \<rparr> [Some newBoard] None 1000
           = Inr (h', snd (negamax newBoard BLACK newBoard BLACK 7 (INT_MIN + 1) INT_MAX))
       \<and> doMove newBoard (snd (negamax newBoard BLACK newBoard BLACK 7 (INT_MIN + 1) INT_MAX)) BLACK
           = Inr b2
       \<and> deref h' 0 = Inr b2
       \<and> length [Some newBoard] \<le> length h'
       \<and> (\<forall>p < length [Some newBoard]. p \<noteq> 0 \<longrightarrow> h' ! p = [Some newBoard] ! p))"
proof -
  let ?pl = "\<lparr> board = 0, side = BLACK, testingMinimax = False \<rparr>"
  let ?h = "[Some newBoard, Some (place newBoard 2 3 BLACK)]"
  have d0: "deref ?h 0 = Inr newBoard" and d1: "deref ?h 1 = Inr (place newBoard 2 3 BLACK)"
    by (simp_all add: deref_def)
  have e0: "deref [Some newBoard] 0 = Inr newBoard" by (simp add: deref_def)
  have p: "doMove newBoard None WHITE = Inr newBoard" by (simp add: doMove_def)
  from search_leaves_boards_unchanged
    [where pl = ?pl and h = ?h and tb = newBoard and bp = 1 and b = "place newBoard 2 3 BLACK"
       and s = WHITE and d = 6 and alpha = "- INT_MAX" and beta = INT_MAX
       and ?h0.0 = "[Some newBoard]" and ?b0.0 = newBoard and opponentsMove = None
       and ?b1.0 = newBoard and msLeft = 1000]
    d0 d1 e0 p
  show ?thesis by simp
qed

end
